theory Spec2Isabelle
  imports Main "HOL-Library.Word"
begin

section \<open>Managed files (managed-file.hpp)\<close>

text \<open>
  The local-disk cache keeps one \<open>managed_file::File\<close> object per cached path. The
  embedding below follows \<^verbatim>\<open>be/src/dfs_cache/managed-file.hpp\<close> member by member. It
  is sequential: one call runs to its end before the next starts, so the atomics are
  plain fields and a compare-exchange is a test followed by a store.
\<close>

subsection \<open>Data\<close>

text \<open>The enumeration \<open>managed_file::State\<close>, in the order of its declaration.\<close>

datatype State =
    FILE_IS_MARKED_FOR_DELETION
  | FILE_IS_IN_USE_BY_SYNC
  | FILE_HAS_CLIENTS
  | FILE_IS_AMORPHOUS
  | FILE_IS_IDLE
  | FILE_IS_FORBIDDEN
  | FILE_IS_UNDER_WRITE

text \<open>
  \<open>DFS_TYPE\<close> is declared in \<^verbatim>\<open>common-include.hpp\<close>, outside the sources followed
  here; the code names only \<open>NON_SPECIFIED\<close>. Every other member is \<open>DFS k\<close>.
\<close>

datatype DFS_TYPE = NON_SPECIFIED | DFS nat

text \<open>
  \<open>boost::posix_time::ptime\<close>: a default-constructed value is \<open>not_a_date_time\<close>, any
  other is a number of microseconds since the epoch. A \<open>time_duration\<close> is a number of
  microseconds; its default constructor gives zero. \<open>std::time_t\<close> counts seconds.
\<close>

datatype ptime = not_a_date_time | PTime int

type_synonym time_duration = int
type_synonym time_t = int

definition time_duration_default :: time_duration where
  "time_duration_default = 0"

definition minutes :: "int \<Rightarrow> time_duration" where
  "minutes n = n * 60000000"

definition from_time_t :: "time_t \<Rightarrow> ptime" where
  "from_time_t s = PTime (s * 1000000)"

text \<open>
  \<open>FileSystemDescriptor\<close>, as far as the sources use it: the fields \<open>dfs_type\<close>,
  \<open>host\<close>, \<open>port\<close> (an \<open>int\<close>, the target of \<open>std::stoi\<close>) and \<open>valid\<close>.
\<close>

record FileSystemDescriptor =
  dfs_type :: DFS_TYPE
  host :: string
  port :: int
  valid :: bool

text \<open>
  The class \<open>File\<close>. \<open>std::size_t\<close> and \<open>boost::uintmax_t\<close> are 64-bit unsigned words
  (the LP64 targets the cache is built for), \<open>std::atomic<int>\<close> and
  \<open>std::atomic<unsigned>\<close> are 32-bit words. \<open>m_weightIsChangedcallback\<close> records
  whether a callback is assigned; calling it is an event the setter reports.
  \<open>m_state_changed_notified\<close> counts the \<open>notify_all\<close> broadcasts made on
  \<open>m_state_changed_condition\<close>.
\<close>

record File =
  m_state :: State
  m_subscribers :: "32 word"
  m_fqp :: string
  m_fqnp :: string
  m_size :: "64 word"
  m_estimatedsize :: "64 word"
  m_prevsize :: "64 word"
  m_filename :: string
  m_originhost :: string
  m_originport :: string
  m_schema :: DFS_TYPE
  m_duration_next_attempt_to_sync :: time_duration
  m_lastsyncattempt :: ptime
  m_users :: "32 word"
  m_weightIsChangedcallback :: bool
  m_state_changed_notified :: nat

subsection \<open>State getter, setter and deletion mark\<close>

definition state :: "File \<Rightarrow> State" where
  "state f = m_state f"

definition exists_file :: "File \<Rightarrow> bool" where
  "exists_file f \<longleftrightarrow> m_state f = FILE_HAS_CLIENTS \<or> m_state f = FILE_IS_IDLE"

definition valid_file :: "File \<Rightarrow> bool" where
  "valid_file f \<longleftrightarrow>
     \<not> (m_state f = FILE_IS_FORBIDDEN \<or> m_state f = FILE_IS_MARKED_FOR_DELETION)"

definition notify_all :: "File \<Rightarrow> File" where
  "notify_all f = f\<lparr>m_state_changed_notified := Suc (m_state_changed_notified f)\<rparr>"

text \<open>\<open>m_state.compare_exchange_strong(expected, desired)\<close>: the flag and the file.\<close>

definition compare_exchange_strong :: "State \<Rightarrow> State \<Rightarrow> File \<Rightarrow> bool \<times> File" where
  "compare_exchange_strong expected desired f =
     (if m_state f = expected then (True, f\<lparr>m_state := desired\<rparr>) else (False, f))"

text \<open>
  \<open>mark_for_deletion()\<close>: three compare-exchanges in the order of the source (idle,
  forbidden, amorphous). The first two return from inside their \<open>if (marked)\<close>; the
  third broadcasts whether or not it succeeded.
\<close>

definition mark_for_deletion :: "File \<Rightarrow> bool \<times> File" where
  "mark_for_deletion f =
     (case compare_exchange_strong FILE_IS_IDLE FILE_IS_MARKED_FOR_DELETION f of
        (True, f1) \<Rightarrow>
          (let f2 = notify_all f1 in
           if m_subscribers f2 = 0 then (True, f2) else (False, f2))
      | (False, f1) \<Rightarrow>
          (case compare_exchange_strong FILE_IS_FORBIDDEN FILE_IS_MARKED_FOR_DELETION f1 of
             (True, f2) \<Rightarrow>
               (let f3 = notify_all f2 in
                if m_subscribers f3 = 0 then (True, f3) else (False, f3))
           | (False, f2) \<Rightarrow>
               (case compare_exchange_strong FILE_IS_AMORPHOUS FILE_IS_MARKED_FOR_DELETION f2 of
                  (marked, f3) \<Rightarrow>
                    (let f4 = notify_all f3;
                         marked' = (marked \<and> m_subscribers f4 = 0)
                     in (marked', f4)))))"

text \<open>
  The setter \<open>state(State)\<close>. \<open>now\<close> is the reading of
  \<open>microsec_clock::local_time()\<close>, used only for \<open>FILE_IS_IN_USE_BY_SYNC\<close>.
\<close>

definition state_set :: "ptime \<Rightarrow> State \<Rightarrow> File \<Rightarrow> File" where
  "state_set now s f =
     (if m_state f = FILE_IS_MARKED_FOR_DELETION then f
      else
        let f1 = (if s = FILE_IS_IN_USE_BY_SYNC then f\<lparr>m_lastsyncattempt := now\<rparr> else f);
            f2 = f1\<lparr>m_state := s\<rparr>
        in notify_all f2)"

text \<open>A run of setter calls, each with its own clock reading, in order.\<close>

fun state_set_all :: "(ptime \<times> State) list \<Rightarrow> File \<Rightarrow> File" where
  "state_set_all [] f = f"
| "state_set_all ((now, s) # calls) f = state_set_all calls (state_set now s f)"

definition subscribe_for_updates :: "File \<Rightarrow> bool \<times> File" where
  "subscribe_for_updates f =
     (if m_state f = FILE_IS_MARKED_FOR_DELETION then (False, f)
      else (True, f\<lparr>m_subscribers := m_subscribers f + 1\<rparr>))"

definition unsubscribe_from_updates :: "File \<Rightarrow> File" where
  "unsubscribe_from_updates f = f\<lparr>m_subscribers := m_subscribers f - 1\<rparr>"

text \<open>The states that \<open>mark_for_deletion\<close> tests for.\<close>

definition markable :: "State \<Rightarrow> bool" where
  "markable s \<longleftrightarrow> s = FILE_IS_IDLE \<or> s = FILE_IS_FORBIDDEN \<or> s = FILE_IS_AMORPHOUS"

text \<open>A file to run the definitions on.\<close>

definition sample_file :: File where
  "sample_file =
     \<lparr> m_state = FILE_IS_IDLE, m_subscribers = 0, m_fqp = ''/r/hdfs/nn_8020/a'',
       m_fqnp = ''hdfs://nn:8020/a'', m_size = 0, m_estimatedsize = 30, m_prevsize = 30,
       m_filename = ''/a'', m_originhost = ''nn'', m_originport = ''8020'',
       m_schema = DFS 0, m_duration_next_attempt_to_sync = minutes 6,
       m_lastsyncattempt = not_a_date_time, m_users = 0,
       m_weightIsChangedcallback = True, m_state_changed_notified = 0 \<rparr>"

subsection \<open>Decimal strings: \<open>std::to_string\<close> and \<open>std::stoi\<close>\<close>

definition digit_char :: "nat \<Rightarrow> char" where
  "digit_char d = ''0123456789'' ! d"

fun digits_of :: "nat \<Rightarrow> string" where
  "digits_of n =
     (if n < 10 then [digit_char n] else digits_of (n div 10) @ [digit_char (n mod 10)])"

declare digits_of.simps [simp del]

text \<open>\<open>std::to_string(int)\<close>.\<close>

definition to_string :: "int \<Rightarrow> string" where
  "to_string i =
     (if i < 0 then CHR ''-'' # digits_of (nat (- i)) else digits_of (nat i))"

definition isspace :: "char \<Rightarrow> bool" where
  "isspace c \<longleftrightarrow> c \<in> set [CHR '' '', CHR 0x09, CHR 0x0A, CHR 0x0B, CHR 0x0C, CHR 0x0D]"

definition isdigit :: "char \<Rightarrow> bool" where
  "isdigit c \<longleftrightarrow> (48 :: nat) \<le> of_char c \<and> (of_char c :: nat) \<le> 57"

definition digit_value :: "char \<Rightarrow> int" where
  "digit_value c = int (of_char c :: nat) - 48"

definition INT_MIN :: int where
  "INT_MIN = - (2 ^ 31)"

definition INT_MAX :: int where
  "INT_MAX = 2 ^ 31 - 1"

text \<open>
  \<open>std::stoi(str)\<close> in base 10: leading white space is skipped, one sign is read, then
  the longest run of digits; what follows is ignored. \<open>None\<close> is an exception:
  \<open>std::invalid_argument\<close> when there is no digit, \<open>std::out_of_range\<close> when the value
  does not fit an \<open>int\<close>.
\<close>

definition stoi :: "string \<Rightarrow> int option" where
  "stoi str =
     (let s1 = dropWhile isspace str;
          negative = (s1 \<noteq> [] \<and> hd s1 = CHR ''-'');
          s2 = (if s1 \<noteq> [] \<and> (hd s1 = CHR ''-'' \<or> hd s1 = CHR ''+'') then tl s1 else s1);
          ds = takeWhile isdigit s2;
          magnitude = foldl (\<lambda>acc c. acc * 10 + digit_value c) 0 ds;
          v = (if negative then - magnitude else magnitude)
      in if ds = [] then None
         else if v < INT_MIN \<or> INT_MAX < v then None
         else Some v)"

subsection \<open>Construction\<close>

text \<open>
  What the constructor takes from outside these sources:
  \<^item> \<open>restoreNetworkPathFromLocal\<close>, the path codec's decoder, declared in the class
    and defined in a file that is not among the sources: it returns the descriptor and
    writes the network path and the relative name;
  \<^item> \<open>_defaultTimeSliceInMinutes\<close>, a static member defined elsewhere;
  \<^item> \<open>utilities::posix_time_to_time_t\<close>, the conversion used by the time stamp setter.
  The last two fields say how the generic \<open>LRUCache\<close> of \<^verbatim>\<open>lru-cache.hpp\<close>, which is
  not among the sources either, treats its arguments: whether \<open>add\<close> rebinds its item
  reference to the entry already stored when it finds a duplicate, and whether an
  eviction asks for the physical removal.
\<close>

record externals =
  restoreNetworkPathFromLocal :: "string \<Rightarrow> FileSystemDescriptor \<times> string \<times> string"
  defaultTimeSliceInMinutes :: int
  posix_time_to_time_t :: "ptime \<Rightarrow> time_t"
  lru_rebinds_item :: bool
  lru_evicts_physically :: bool

text \<open>
  The two atomics have no initialiser in the class: until a \<open>store\<close> runs they hold
  whatever the allocation left there. \<open>raw_counters\<close> is that content.
\<close>

record raw_counters =
  raw_users :: "32 word"
  raw_subscribers :: "32 word"

text \<open>
  \<open>File(const char* path)\<close>: the member initialisers, the store of
  \<open>FILE_IS_AMORPHOUS\<close>, the decoding, and the early return when the descriptor is not
  valid. Strings, the duration and the time stamp are default-constructed.
\<close>

definition File_ctor :: "externals \<Rightarrow> raw_counters \<Rightarrow> string \<Rightarrow> File" where
  "File_ctor ext raw path =
     (let f0 = \<lparr> m_state = FILE_IS_AMORPHOUS, m_subscribers = raw_subscribers raw,
                 m_fqp = path, m_fqnp = [], m_size = 0, m_estimatedsize = 0, m_prevsize = 0,
                 m_filename = [], m_originhost = [], m_originport = [],
                 m_schema = NON_SPECIFIED,
                 m_duration_next_attempt_to_sync = time_duration_default,
                 m_lastsyncattempt = not_a_date_time, m_users = raw_users raw,
                 m_weightIsChangedcallback = False, m_state_changed_notified = 0 \<rparr>
      in case restoreNetworkPathFromLocal ext path of
           (descriptor, fqnp, relative) \<Rightarrow>
             (let f1 = f0\<lparr>m_fqnp := fqnp, m_filename := relative\<rparr>
              in if \<not> valid descriptor then f1\<lparr>m_state := FILE_IS_FORBIDDEN\<rparr>
                 else f1\<lparr>m_schema := dfs_type descriptor,
                         m_originhost := host descriptor,
                         m_originport := to_string (port descriptor),
                         m_users := 0,
                         m_subscribers := 0,
                         m_duration_next_attempt_to_sync :=
                           minutes (defaultTimeSliceInMinutes ext)\<rparr>))"

text \<open>\<open>File(path, eve)\<close>; \<open>eve\<close> says whether the event handed in holds a target.\<close>

definition File_ctor_event :: "externals \<Rightarrow> raw_counters \<Rightarrow> string \<Rightarrow> bool \<Rightarrow> File" where
  "File_ctor_event ext raw path eve = (File_ctor ext raw path)\<lparr>m_weightIsChangedcallback := eve\<rparr>"

subsection \<open>Sizes\<close>

definition estimated_size :: "File \<Rightarrow> 64 word" where
  "estimated_size f = m_estimatedsize f"

text \<open>
  The setter \<open>estimated_size(std::size_t size)\<close>, with \<open>sz\<close> for \<open>size\<close>. \<open>size - m_prevsize\<close> is computed in
  \<open>std::size_t\<close> and converted to \<open>long long\<close>: the 64-bit difference read as two's
  complement. The first component is the callback's argument when the callback is
  assigned and runs, which is before the two fields are written.
\<close>

definition estimated_size_set :: "64 word \<Rightarrow> File \<Rightarrow> int option \<times> File" where
  "estimated_size_set sz f =
     (let delta = sint (sz - m_prevsize f);
          fired = (if m_weightIsChangedcallback f then Some delta else None)
      in (fired, f\<lparr>m_prevsize := sz, m_estimatedsize := sz\<rparr>))"

subsection \<open>The local file system\<close>

text \<open>
  The part of the disk the cache reads and writes through \<open>boost::filesystem\<close>: a list
  of the objects on disk, each under its name with its kind, its last write time and
  its size, in the order in which a directory traversal meets them. A name is written
  with single separators and none at its end.
\<close>

datatype file_type = regular_file | directory_file | other_file

record fs_entry =
  ftype :: file_type
  mtime :: time_t
  fsize :: "64 word"

type_synonym filesystem = "(string \<times> fs_entry) list"

definition ENOENT :: int where
  "ENOENT = 2"

text \<open>
  A path names an object as the operating system resolves it: a run of separators
  counts as one, and separators at the end are allowed when the object is a
  directory. \<open>resolve\<close> gives the name on disk and the entry, or \<open>None\<close> when the path
  names nothing. Links and the components \<open>.\<close> and \<open>..\<close> are left out: the cache
  builds its paths from a root and the names a traversal reports.
\<close>

fun squeeze :: "string \<Rightarrow> string" where
  "squeeze (c # d # cs) =
     (if c = CHR ''/'' \<and> d = CHR ''/'' then squeeze (d # cs) else c # squeeze (d # cs))"
| "squeeze cs = cs"

definition trailing_separator :: "string \<Rightarrow> bool" where
  "trailing_separator p \<longleftrightarrow> 1 < length p \<and> last p = CHR ''/''"

definition canonical :: "string \<Rightarrow> string" where
  "canonical p = (if trailing_separator (squeeze p) then butlast (squeeze p) else squeeze p)"

definition resolve :: "filesystem \<Rightarrow> string \<Rightarrow> (string \<times> fs_entry) option" where
  "resolve fs p =
     (case map_of fs (canonical p) of
        None \<Rightarrow> None
      | Some e \<Rightarrow>
          if trailing_separator (squeeze p) \<and> ftype e \<noteq> directory_file then None
          else Some (canonical p, e))"

text \<open>\<open>file_size(p, ec)\<close>: the size of a regular file, \<open>None\<close> for an error code.\<close>

definition file_size :: "filesystem \<Rightarrow> string \<Rightarrow> 64 word option" where
  "file_size fs p =
     (case resolve fs p of
        None \<Rightarrow> None
      | Some (k, e) \<Rightarrow> if ftype e = regular_file then Some (fsize e) else None)"

text \<open>\<open>last_write_time(p, ec)\<close>, reading.\<close>

definition last_write_time :: "filesystem \<Rightarrow> string \<Rightarrow> time_t option" where
  "last_write_time fs p = map_option (\<lambda>(k, e). mtime e) (resolve fs p)"

text \<open>\<open>last_write_time(p, t, ec)\<close>, writing: the value of \<open>ec\<close> and the disk.\<close>

definition last_write_time_set :: "string \<Rightarrow> time_t \<Rightarrow> filesystem \<Rightarrow> int \<times> filesystem" where
  "last_write_time_set p t fs =
     (case resolve fs p of
        None \<Rightarrow> (ENOENT, fs)
      | Some (k, e0) \<Rightarrow>
          (0, map (\<lambda>(q, e). if q = k then (q, e\<lparr>mtime := t\<rparr>) else (q, e)) fs))"

text \<open>\<open>exists(p)\<close> and \<open>is_directory(p)\<close>.\<close>

definition fs_exists :: "filesystem \<Rightarrow> string \<Rightarrow> bool" where
  "fs_exists fs p = (case resolve fs p of None \<Rightarrow> False | Some x \<Rightarrow> True)"

definition is_directory :: "filesystem \<Rightarrow> string \<Rightarrow> bool" where
  "is_directory fs p =
     (case resolve fs p of None \<Rightarrow> False | Some (k, e) \<Rightarrow> ftype e = directory_file)"

text \<open>The getter \<open>size()\<close>.\<close>

definition size_of_file :: "filesystem \<Rightarrow> File \<Rightarrow> 64 word" where
  "size_of_file fs f = (case file_size fs (m_fqp f) of Some n \<Rightarrow> n | None \<Rightarrow> 0)"

text \<open>The getter \<open>last_access()\<close>; \<open>now\<close> is the clock, in microseconds.\<close>

definition last_access :: "int \<Rightarrow> filesystem \<Rightarrow> File \<Rightarrow> ptime" where
  "last_access now fs f =
     (case last_write_time fs (m_fqp f) of
        Some t \<Rightarrow> from_time_t t
      | None \<Rightarrow> PTime now)"

text \<open>
  The setter \<open>last_access(const ptime& time)\<close>: the returned \<open>int\<close>, the object and the
  disk. No member of the object is assigned.
\<close>

definition last_access_set ::
  "externals \<Rightarrow> ptime \<Rightarrow> File \<Rightarrow> filesystem \<Rightarrow> int \<times> File \<times> filesystem" where
  "last_access_set ext time f fs =
     (if m_state f = FILE_IS_FORBIDDEN then (- 1, f, fs)
      else
        case last_write_time_set (m_fqp f) (posix_time_to_time_t ext time) fs of
          (ec, fs') \<Rightarrow> (ec, f, fs'))"

text \<open>
  Modelled from the spec: \<open>File::drop()\<close> is declared in the class and defined in a
  file that is not among the sources. The deletion policy of the specification says it
  unlinks the file from disk.
\<close>

definition drop_file :: "File \<Rightarrow> filesystem \<Rightarrow> filesystem" where
  "drop_file f fs =
     (case resolve fs (m_fqp f) of
        None \<Rightarrow> fs
      | Some (k, e0) \<Rightarrow> filter (\<lambda>(q, e). q \<noteq> k) fs)"

section \<open>The file system LRU cache (filesystem-lru-cache.hpp, filesystem-lru-cache.cc)\<close>

subsection \<open>Objects, the cache and what can go wrong\<close>

text \<open>
  \<open>File\<close> objects live on the heap and the cache holds pointers to them, so the model
  has an explicit store from addresses to objects: \<open>new\<close> takes the next free address,
  \<open>delete\<close> empties one, and a pointer whose address is empty dangles. \<open>garbage\<close> is
  what an allocation holds before a constructor writes to it. The world also carries
  the disk, the clock (microseconds), and the members of the cache: the entries of the
  underlying \<open>LRUCache\<close> in eviction order with their accounted weight, the capacity
  limit, the root and the start time. \<open>past_the_end_key\<close> is what a read of the key at
  the end iterator of an empty \<open>std::multimap\<close> finds there; the language leaves it
  undefined, and the compiled code goes on with the value.
\<close>

type_synonym addr = nat

record world =
  heap :: "addr \<Rightarrow> File option"
  next_addr :: addr
  garbage :: "addr \<Rightarrow> raw_counters"
  disk :: filesystem
  clock :: int
  lru_entries :: "addr list"
  current_weight :: nat
  m_capacityLimit :: "64 word"
  m_root :: string
  m_startTime :: ptime
  past_the_end_key :: time_t

text \<open>
  The use of a pointer to a deleted object, an exception that leaves the function, and
  a wait that nothing ends are results of their own.
\<close>

datatype fault =
    invalid_pointer
  | filesystem_error
  | waits_forever

definition new_File :: "File \<Rightarrow> world \<Rightarrow> addr \<times> world" where
  "new_File f w =
     (next_addr w, w\<lparr>heap := (heap w)(next_addr w \<mapsto> f), next_addr := Suc (next_addr w)\<rparr>)"

definition delete_File :: "addr \<Rightarrow> world \<Rightarrow> world" where
  "delete_File a w = w\<lparr>heap := (heap w)(a := None)\<rparr>"

definition store_File :: "addr \<Rightarrow> File \<Rightarrow> world \<Rightarrow> world" where
  "store_File a f w = w\<lparr>heap := (heap w)(a \<mapsto> f)\<rparr>"

subsection \<open>The predicates handed to the LRU engine\<close>

definition isItemIdle :: "File \<Rightarrow> bool" where
  "isItemIdle f \<longleftrightarrow> state f \<noteq> FILE_HAS_CLIENTS"

definition getTimestamp :: "world \<Rightarrow> File \<Rightarrow> ptime" where
  "getTimestamp w f = last_access (clock w) (disk w) f"

definition getCapacity :: "world \<Rightarrow> 64 word" where
  "getCapacity w = m_capacityLimit w"

text \<open>\<open>getWeight(file)\<close>; \<open>None\<close> is \<open>nullptr\<close>.\<close>

definition getWeight :: "world \<Rightarrow> File option \<Rightarrow> 64 word" where
  "getWeight w file = (case file of None \<Rightarrow> 0 | Some f \<Rightarrow> size_of_file (disk w) f)"

subsection \<open>\<open>deleteFile\<close>\<close>

text \<open>
  \<open>deleteFile(file, physically)\<close>: the idle test, the setter call with
  \<open>FILE_IS_MARKED_FOR_DELETION\<close>, the drop when asked for, and \<open>delete file\<close>.
\<close>

definition deleteFile :: "addr \<Rightarrow> bool \<Rightarrow> world \<Rightarrow> fault + bool \<times> world" where
  "deleteFile file physically w =
     (case heap w file of
        None \<Rightarrow> Inl invalid_pointer
      | Some f \<Rightarrow>
          if \<not> isItemIdle f then Inr (False, w)
          else
            let f1 = state_set (PTime (clock w)) FILE_IS_MARKED_FOR_DELETION f;
                w1 = store_File file f1 w;
                w2 = (if physically then w1\<lparr>disk := drop_file f1 (disk w1)\<rparr> else w1);
                w3 = delete_File file w2
            in Inr (True, w3))"

subsection \<open>\<open>constructNew\<close>\<close>

definition constructNew :: "externals \<Rightarrow> string \<Rightarrow> world \<Rightarrow> addr option \<times> world" where
  "constructNew ext path w =
     (let f = File_ctor ext (garbage w (next_addr w)) path
      in case new_File f w of
           (file, w1) \<Rightarrow>
             if state f = FILE_IS_FORBIDDEN then (None, delete_File file w1)
             else (Some file, w1))"

subsection \<open>\<open>continuationFor\<close>\<close>

text \<open>
  \<open>status::StatusInternal\<close> and \<open>taskOverallStatus\<close> are declared outside these
  sources. The first has the members the sources name; of the second the code names
  \<open>COMPLETED_OK\<close> only, every other member is \<open>NOT_OK k\<close>.
\<close>

datatype StatusInternal =
    OK
  | REQUEST_FAILED
  | OPERATION_ASYNC_SCHEDULED
  | NAMENODE_IS_NOT_CONFIGURED
  | DFS_NAMENODE_IS_NOT_REACHABLE
  | NOT_IMPLEMENTED

datatype taskOverallStatus = COMPLETED_OK | NOT_OK nat

text \<open>The arguments of one call of the completion callback.\<close>

record completion =
  context_is_null :: bool
  progress_size :: nat
  overall :: bool
  canceled :: bool
  task_status :: taskOverallStatus

text \<open>
  What \<open>CacheManager::cachePrepareData\<close> does with the request: the scheduling status
  it returns, and the callback call that follows, if one ever does.
\<close>

record prepare =
  scheduling :: StatusInternal
  completed :: "completion option"

text \<open>
  \<open>continuationFor(file)\<close>; \<open>None\<close> is \<open>nullptr\<close>. The callback runs on another thread
  between the scheduling and the end of the wait; here it runs when the wait is
  reached. Its log lines are left out.
\<close>

definition continuationFor :: "prepare \<Rightarrow> addr option \<Rightarrow> world \<Rightarrow> fault + world" where
  "continuationFor prep file w =
     (case file of
        None \<Rightarrow> Inr w
      | Some a \<Rightarrow>
          (case heap w a of
             None \<Rightarrow> Inl invalid_pointer
           | Some f \<Rightarrow>
               if \<not> valid_file f then Inr w
               else
                 let f1 = state_set (PTime (clock w)) FILE_IS_IN_USE_BY_SYNC f;
                     w1 = store_File a f1 w
                 in (case stoi (m_originport f1) of
                       None \<Rightarrow> Inr w1
                     | Some port_number \<Rightarrow>
                         if scheduling prep \<noteq> OPERATION_ASYNC_SCHEDULED then Inr w1
                         else
                           (case completed prep of
                              None \<Rightarrow> Inl waits_forever
                            | Some c \<Rightarrow>
                                (let cbStatus =
                                       (if task_status c = COMPLETED_OK then OK
                                        else REQUEST_FAILED);
                                     f2 = (if task_status c \<noteq> COMPLETED_OK
                                           then state_set (PTime (clock w)) FILE_IS_FORBIDDEN f1
                                           else f1);
                                     f3 = (if cbStatus \<noteq> OK
                                           then state_set (PTime (clock w)) FILE_IS_FORBIDDEN f2
                                           else state_set (PTime (clock w)) FILE_IS_IDLE f2)
                                 in Inr (store_File a f3 w1))))))"

subsection \<open>The generic LRU cache\<close>

text \<open>
  \<open>LRUCache<File>\<close> is defined in \<^verbatim>\<open>lru-cache.hpp\<close>, which is not among the sources;
  \<open>FileSystemLRUCache\<close> derives from it and calls its \<open>add\<close> and \<open>clear\<close>. The
  definitions of this subsection follow the specification's indexed store and
  admission algorithm instead.
\<close>

text \<open>
  Modelled from the spec: the index by local path of the missing \<open>LRUCache\<close>. The store
  maps a local path to at most one managed file; the lookup returns the first entry
  whose object carries the path.
\<close>

definition lru_find :: "world \<Rightarrow> string \<Rightarrow> addr option" where
  "lru_find w path =
     find (\<lambda>e. case heap w e of Some g \<Rightarrow> m_fqp g = path | None \<Rightarrow> False) (lru_entries w)"

text \<open>The order of two time stamps, neither of them \<open>not_a_date_time\<close>.\<close>

definition ptime_less :: "ptime \<Rightarrow> ptime \<Rightarrow> bool" where
  "ptime_less a b =
     (case a of
        PTime x \<Rightarrow> (case b of PTime y \<Rightarrow> x < y | not_a_date_time \<Rightarrow> False)
      | not_a_date_time \<Rightarrow> False)"

text \<open>
  Modelled from the spec: the recency list of the missing \<open>LRUCache\<close>. Entries are
  ordered by last access ascending, and among entries with equal time stamps the
  earlier insertion comes first: the new item goes behind every entry whose time
  stamp is not greater than its own.
\<close>

fun insert_by_timestamp :: "world \<Rightarrow> ptime \<Rightarrow> addr \<Rightarrow> addr list \<Rightarrow> fault + addr list" where
  "insert_by_timestamp w t item [] = Inr [item]"
| "insert_by_timestamp w t item (e # es) =
     (case heap w e of
        None \<Rightarrow> Inl invalid_pointer
      | Some g \<Rightarrow>
          if ptime_less t (getTimestamp w g) then Inr (item # e # es)
          else
            (case insert_by_timestamp w t item es of
               Inl x \<Rightarrow> Inl x
             | Inr es' \<Rightarrow> Inr (e # es')))"

text \<open>
  Modelled from the spec: the eviction scan of the missing \<open>LRUCache\<close>. While the
  candidate of weight \<open>need\<close> does not fit, the scan takes the entries from the front,
  skips an entry for which the idle predicate is false, and calls the deletion
  predicate on an idle one; on success the entry leaves the store and its weight is
  subtracted. It stops when the candidate fits or no entry is left.
\<close>

fun evict :: "externals \<Rightarrow> nat \<Rightarrow> addr list \<Rightarrow> world \<Rightarrow> fault + world" where
  "evict ext need [] w = Inr w"
| "evict ext need (e # es) w =
     (if current_weight w + need \<le> unat (getCapacity w) then Inr w
      else
        case heap w e of
          None \<Rightarrow> Inl invalid_pointer
        | Some g \<Rightarrow>
            if \<not> isItemIdle g then evict ext need es w
            else
              (case deleteFile e (lru_evicts_physically ext) w of
                 Inl x \<Rightarrow> Inl x
               | Inr (deleted, w1) \<Rightarrow>
                   if deleted
                   then evict ext need es
                          (w1\<lparr>lru_entries := removeAll e (lru_entries w1),
                              current_weight :=
                                current_weight w1 - unat (getWeight w (Some g))\<rparr>)
                   else evict ext need es w1))"

text \<open>
  Modelled from the spec: \<open>LRUCache<File>::add(item, duplicate)\<close> of the missing
  \<open>LRUCache\<close>. A duplicate admission of a path leaves the store as it is and sets
  \<open>duplicate\<close>; otherwise the eviction scan runs for the weight of the candidate and the
  candidate is inserted whether or not it fits then. The result is the returned flag,
  \<open>duplicate\<close>, the item as the caller sees it afterwards, and the world.
\<close>

definition LRUCache_add ::
  "externals \<Rightarrow> addr \<Rightarrow> world \<Rightarrow> fault + bool \<times> bool \<times> addr \<times> world" where
  "LRUCache_add ext item w =
     (case heap w item of
        None \<Rightarrow> Inl invalid_pointer
      | Some f \<Rightarrow>
          (case lru_find w (m_fqp f) of
             Some existing \<Rightarrow>
               Inr (False, True, (if lru_rebinds_item ext then existing else item), w)
           | None \<Rightarrow>
               (case evict ext (unat (getWeight w (Some f))) (lru_entries w) w of
                  Inl x \<Rightarrow> Inl x
                | Inr w1 \<Rightarrow>
                    (case insert_by_timestamp w1 (getTimestamp w1 f) item (lru_entries w1) of
                       Inl x \<Rightarrow> Inl x
                     | Inr es \<Rightarrow>
                         Inr (True, False, item,
                              w1\<lparr>lru_entries := es,
                                  current_weight :=
                                    current_weight w1 + unat (getWeight w (Some f))\<rparr>)))))"

text \<open>
  Modelled from the spec: \<open>LRUCache<File>::clear()\<close> of the missing \<open>LRUCache\<close>, which
  the reloader uses to clear the indexed store: no entry and no accounted weight
  remain.
\<close>

definition clear :: "world \<Rightarrow> world" where
  "clear w = w\<lparr>lru_entries := [], current_weight := 0\<rparr>"

subsection \<open>\<open>add\<close>, \<open>find\<close>, \<open>reset\<close>\<close>

definition reset :: "world \<Rightarrow> world" where
  "reset w = clear w"

definition find_file :: "world \<Rightarrow> string \<Rightarrow> addr option" where
  "find_file w path = lru_find w path"

text \<open>
  \<open>add(path, file)\<close>: the result is the returned flag, the pointer left in the caller's
  \<open>file\<close>, and the world. \<open>boost::filesystem::file_size(path)\<close> is the throwing
  overload. The object is built by the one-argument constructor, so its callback is not
  assigned and the size setter reports no event.
\<close>

definition add :: "externals \<Rightarrow> string \<Rightarrow> world \<Rightarrow> fault + bool \<times> addr \<times> world" where
  "add ext path w =
     (let f = File_ctor ext (garbage w (next_addr w)) path
      in case new_File f w of
           (file, w1) \<Rightarrow>
             (case file_size (disk w1) path of
                None \<Rightarrow> Inl filesystem_error
              | Some n \<Rightarrow>
                  (case LRUCache_add ext file
                          (store_File file (snd (estimated_size_set n f)) w1) of
                     Inl x \<Rightarrow> Inl x
                   | Inr (success, duplicate, file', w3) \<Rightarrow>
                       if duplicate then Inr (success, file', delete_File file' w3)
                       else Inr (success, file', w3))))"

subsection \<open>\<open>reload\<close>\<close>

text \<open>
  \<open>std::multimap::insert\<close> puts the new pair after every pair whose key is not
  greater, so pairs with equal keys stay in the order of their insertion.
\<close>

fun multimap_insert :: "time_t \<times> string \<Rightarrow> (time_t \<times> string) list \<Rightarrow> (time_t \<times> string) list" where
  "multimap_insert kv [] = [kv]"
| "multimap_insert kv (x # xs) =
     (if fst kv < fst x then kv # x # xs else x # multimap_insert kv xs)"

text \<open>
  The entries a \<open>recursive_directory_iterator\<close> of \<open>root\<close> visits, in the order of the
  disk: the objects whose names continue the name of the root after a separator. The
  iterator reports each as the root, as it was written, joined with the rest of the
  name.
\<close>

definition with_separator :: "string \<Rightarrow> string" where
  "with_separator root = (if root \<noteq> [] \<and> last root = CHR ''/'' then root else root @ ''/'')"

definition below :: "string \<Rightarrow> string \<Rightarrow> bool" where
  "below k q \<longleftrightarrow>
     length (with_separator k) < length q \<and>
     take (length (with_separator k)) q = with_separator k"

definition recursive_directory_iterator :: "filesystem \<Rightarrow> string \<Rightarrow> (string \<times> fs_entry) list" where
  "recursive_directory_iterator fs root =
     (case resolve fs root of
        None \<Rightarrow> []
      | Some (k, e0) \<Rightarrow>
          map (\<lambda>(q, e). (with_separator root @ drop (length (with_separator k)) q, e))
            (filter (\<lambda>(q, e). below k q) fs))"

text \<open>The first loop of \<open>reload\<close>: the multimap \<open>result_set\<close>.\<close>

definition collect_result_set :: "filesystem \<Rightarrow> string \<Rightarrow> (time_t \<times> string) list" where
  "collect_result_set fs root =
     (if fs_exists fs root \<and> is_directory fs root
      then foldl (\<lambda>result_set (p, e).
                   if ftype e = regular_file then multimap_insert (mtime e, p) result_set
                   else result_set)
             [] (recursive_directory_iterator fs root)
      else [])"

text \<open>
  The second loop of \<open>reload\<close>: decode, skip what does not decode, \<open>add\<close>, and the
  setter call on the pointer that \<open>add\<close> left in \<open>file\<close>.
\<close>

fun populate :: "externals \<Rightarrow> (time_t \<times> string) list \<Rightarrow> world \<Rightarrow> fault + world" where
  "populate ext [] w = Inr w"
| "populate ext ((t, lp) # rest) w =
     (if \<not> valid (fst (restoreNetworkPathFromLocal ext lp)) then populate ext rest w
      else
        case add ext lp w of
          Inl x \<Rightarrow> Inl x
        | Inr (success, file, w1) \<Rightarrow>
            (case heap w1 file of
               None \<Rightarrow> Inl invalid_pointer
             | Some f \<Rightarrow>
                 populate ext rest
                   (store_File file (state_set (PTime (clock w1)) FILE_IS_IDLE f) w1)))"

text \<open>
  \<open>reload(root)\<close>. After \<open>reset()\<close> the code reads \<open>(*it).first\<close> at
  \<open>result_set.begin()\<close> for the start time. On an empty multimap that is the end
  iterator: the value read is \<open>past_the_end_key\<close>, the loop that follows has nothing
  to do, and the function returns true.
\<close>

definition reload :: "externals \<Rightarrow> string \<Rightarrow> world \<Rightarrow> fault + bool \<times> world" where
  "reload ext root w =
     (if root = [] then Inr (False, w)
      else
        let w1 = w\<lparr>m_root := root\<rparr>;
            result_set = collect_result_set (disk w1) (m_root w1);
            w2 = reset w1;
            first_key = (case result_set of
                           [] \<Rightarrow> past_the_end_key w2
                         | (t, lp) # rest \<Rightarrow> t)
        in (case populate ext result_set (w2\<lparr>m_startTime := from_time_t first_key\<rparr>) of
              Inl x \<Rightarrow> Inl x
            | Inr w3 \<Rightarrow> Inr (True, w3)))"

subsection \<open>What the store holds\<close>

text \<open>
  An entry of the store is decodable when its object is live and the codec accepts the
  object's local path. \<open>store_allocated\<close> adds that every entry lies below the next
  free address, which is what \<open>new\<close> needs to leave the entries alone.
\<close>

definition entry_decodable :: "externals \<Rightarrow> world \<Rightarrow> addr \<Rightarrow> bool" where
  "entry_decodable ext w e =
     (case heap w e of
        None \<Rightarrow> False
      | Some f \<Rightarrow> valid (fst (restoreNetworkPathFromLocal ext (m_fqp f))))"

definition store_decodable :: "externals \<Rightarrow> world \<Rightarrow> bool" where
  "store_decodable ext w = list_all (entry_decodable ext w) (lru_entries w)"

definition store_allocated :: "externals \<Rightarrow> world \<Rightarrow> bool" where
  "store_allocated ext w =
     list_all (\<lambda>e. e < next_addr w \<and> entry_decodable ext w e) (lru_entries w)"

text \<open>
  What a reload is measured against: the files of the sorted collection that decode,
  what the store shows of its entries (the path and the state of each object, in the
  order of the entries), and the weight of a list of files on disk.
\<close>

abbreviation (input) decodable :: "externals \<Rightarrow> time_t \<times> string \<Rightarrow> bool" where
  "decodable ext \<equiv> (\<lambda>(t, p). valid (fst (restoreNetworkPathFromLocal ext p)))"

definition decodable_files :: "externals \<Rightarrow> filesystem \<Rightarrow> string \<Rightarrow> (time_t \<times> string) list" where
  "decodable_files ext fs root =
     filter (\<lambda>(t, p). valid (fst (restoreNetworkPathFromLocal ext p))) (collect_result_set fs root)"

definition store_view :: "world \<Rightarrow> (string \<times> State) option list" where
  "store_view w = map (\<lambda>e. map_option (\<lambda>f. (m_fqp f, m_state f)) (heap w e)) (lru_entries w)"

definition total_weight :: "filesystem \<Rightarrow> (time_t \<times> string) list \<Rightarrow> nat" where
  "total_weight fs rs =
     sum_list (map (\<lambda>(t, p). case file_size fs p of Some n \<Rightarrow> unat n | None \<Rightarrow> 0) rs)"

text \<open>One step of the first loop of \<open>reload\<close>.\<close>

definition collect_step :: "(time_t \<times> string) list \<Rightarrow> string \<times> fs_entry \<Rightarrow> (time_t \<times> string) list" where
  "collect_step = (\<lambda>result_set (p, e).
                   if ftype e = regular_file then multimap_insert (mtime e, p) result_set
                   else result_set)"

text \<open>
  A disk is sound for the traversal of a root when the paths the traversal reports name
  distinct objects, each of them the object it was reported with. A root that names
  nothing has an empty traversal, which is sound.
\<close>

definition walk_resolves :: "filesystem \<Rightarrow> string \<Rightarrow> bool" where
  "walk_resolves fs root \<longleftrightarrow>
     distinct (map (\<lambda>(p, e). canonical p) (recursive_directory_iterator fs root)) \<and>
     list_all (\<lambda>(p, e). map_option snd (resolve fs p) = Some e)
       (recursive_directory_iterator fs root)"

section \<open>A small cache to run the definitions on\<close>

text \<open>
  A decoder for the layout the specification recommends,
  \<^verbatim>\<open><root>/<scheme>/<host>_<port>/<relative>\<close>, cut down to one name node: a path
  decodes when it continues \<^verbatim>\<open>/r/hdfs/nn_8020/\<close>.
\<close>

definition sample_restore :: "string \<Rightarrow> FileSystemDescriptor \<times> string \<times> string" where
  "sample_restore local =
     (if take 16 local = ''/r/hdfs/nn_8020/'' \<and> 16 < length local
      then (\<lparr>dfs_type = DFS 0, host = ''nn'', port = 8020, valid = True\<rparr>,
            ''hdfs://nn:8020'' @ drop 15 local, drop 15 local)
      else (\<lparr>dfs_type = NON_SPECIFIED, host = [], port = 0, valid = False\<rparr>, [], []))"

definition sample_to_time_t :: "ptime \<Rightarrow> time_t" where
  "sample_to_time_t t = (case t of PTime us \<Rightarrow> us div 1000000 | not_a_date_time \<Rightarrow> 0)"

definition sample_ext :: externals where
  "sample_ext =
     \<lparr> restoreNetworkPathFromLocal = sample_restore, defaultTimeSliceInMinutes = 6,
       posix_time_to_time_t = sample_to_time_t, lru_rebinds_item = False,
       lru_evicts_physically = True \<rparr>"

definition sample_raw :: raw_counters where
  "sample_raw = \<lparr> raw_users = 7, raw_subscribers = 9 \<rparr>"

definition sample_disk :: filesystem where
  "sample_disk =
     [ (''/r'', \<lparr>ftype = directory_file, mtime = 1, fsize = 0\<rparr>),
       (''/r/hdfs'', \<lparr>ftype = directory_file, mtime = 1, fsize = 0\<rparr>),
       (''/r/hdfs/nn_8020'', \<lparr>ftype = directory_file, mtime = 1, fsize = 0\<rparr>),
       (''/r/hdfs/nn_8020/b'', \<lparr>ftype = regular_file, mtime = 20, fsize = 20\<rparr>),
       (''/r/hdfs/nn_8020/a'', \<lparr>ftype = regular_file, mtime = 10, fsize = 30\<rparr>),
       (''/r/junk'', \<lparr>ftype = regular_file, mtime = 5, fsize = 1\<rparr>),
       (''/empty'', \<lparr>ftype = directory_file, mtime = 1, fsize = 0\<rparr>) ]"

definition sample_world :: world where
  "sample_world =
     \<lparr> heap = (\<lambda>a. None), next_addr = 0, garbage = (\<lambda>a. sample_raw), disk = sample_disk,
       clock = 100000000, lru_entries = [], current_weight = 0, m_capacityLimit = 100,
       m_root = [], m_startTime = not_a_date_time, past_the_end_key = 77 \<rparr>"

text \<open>The sample world with one object at address 0, admitted or not.\<close>

definition world_with :: "File \<Rightarrow> bool \<Rightarrow> world" where
  "world_with f admitted =
     sample_world\<lparr>heap := (\<lambda>a. None)(0 \<mapsto> f), next_addr := 1,
                  lru_entries := (if admitted then [0] else []),
                  current_weight := (if admitted then unat (size_of_file sample_disk f) else 0)\<rparr>"

section \<open>Properties of the managed file\<close>

lemma mark_for_deletion_markable:
  "markable (m_state f) \<Longrightarrow>
     mark_for_deletion f =
       (m_subscribers f = 0, notify_all (f\<lparr>m_state := FILE_IS_MARKED_FOR_DELETION\<rparr>))"
  by (auto simp: markable_def mark_for_deletion_def compare_exchange_strong_def
      notify_all_def Let_def)

lemma mark_for_deletion_not_markable:
  "\<not> markable (m_state f) \<Longrightarrow> mark_for_deletion f = (False, notify_all f)"
  by (auto simp: markable_def mark_for_deletion_def compare_exchange_strong_def
      notify_all_def Let_def)

lemma m_state_notify_all: "m_state (notify_all f) = m_state f"
  by (simp add: notify_all_def)

text \<open>
  C2. \<open>mark_for_deletion()\<close> compares the state against idle, forbidden and amorphous
  and stores \<open>FILE_IS_MARKED_FOR_DELETION\<close> when one of them matches. It returns true
  exactly when a compare-exchange succeeded and there are no subscribers. When one
  succeeded and subscribers remain (a positive signed count), the file is left marked for
  deletion and the result is false. When none succeeded the state is unchanged and
  the result is false.
\<close>

theorem mark_for_deletion_contract:
  "(fst (mark_for_deletion f) \<longleftrightarrow> markable (m_state f) \<and> m_subscribers f = 0) \<and>
   (markable (m_state f) \<and> 0 < sint (m_subscribers f) \<longrightarrow>
      m_state (snd (mark_for_deletion f)) = FILE_IS_MARKED_FOR_DELETION \<and>
      \<not> fst (mark_for_deletion f)) \<and>
   (markable (m_state f) \<longrightarrow>
      m_state (snd (mark_for_deletion f)) = FILE_IS_MARKED_FOR_DELETION) \<and>
   (\<not> markable (m_state f) \<longrightarrow>
      m_state (snd (mark_for_deletion f)) = m_state f \<and> \<not> fst (mark_for_deletion f))"
proof (cases "markable (m_state f)")
  case True
  have "0 < sint (m_subscribers f) \<Longrightarrow> m_subscribers f \<noteq> 0"
    by auto
  with True show ?thesis
    by (auto simp: mark_for_deletion_markable m_state_notify_all)
next
  case False
  then show ?thesis
    by (simp add: mark_for_deletion_not_markable m_state_notify_all)
qed

theorem mark_for_deletion_contract_witness:
  "fst (mark_for_deletion sample_file) \<and>
   m_state (snd (mark_for_deletion sample_file)) = FILE_IS_MARKED_FOR_DELETION \<and>
   \<not> fst (mark_for_deletion (sample_file\<lparr>m_subscribers := 2\<rparr>)) \<and>
   m_state (snd (mark_for_deletion (sample_file\<lparr>m_subscribers := 2\<rparr>)))
     = FILE_IS_MARKED_FOR_DELETION \<and>
   \<not> fst (mark_for_deletion (sample_file\<lparr>m_state := FILE_HAS_CLIENTS\<rparr>)) \<and>
   m_state (snd (mark_for_deletion (sample_file\<lparr>m_state := FILE_HAS_CLIENTS\<rparr>)))
     = FILE_HAS_CLIENTS"
  using mark_for_deletion_contract [of sample_file]
    mark_for_deletion_contract [of "sample_file\<lparr>m_subscribers := 2\<rparr>"]
    mark_for_deletion_contract [of "sample_file\<lparr>m_state := FILE_HAS_CLIENTS\<rparr>"]
  by (simp add: sample_file_def markable_def)

text \<open>
  C3. \<open>FILE_IS_MARKED_FOR_DELETION\<close> is terminal for the setter: on a file in that
  state, a call of \<open>state(s)\<close> with any target \<open>s\<close> returns without storing anything (the
  whole object is as before), and so does every later run of setter calls.
\<close>

theorem marked_for_deletion_terminal:
  "m_state f = FILE_IS_MARKED_FOR_DELETION \<Longrightarrow>
     state_set now s f = f \<and>
     state_set_all calls f = f \<and>
     m_state (state_set_all calls f) = FILE_IS_MARKED_FOR_DELETION"
proof -
  assume marked: "m_state f = FILE_IS_MARKED_FOR_DELETION"
  have one: "state_set now s f = f" for now s
    using marked by (simp add: state_set_def)
  have run: "state_set_all calls f = f"
  proof (induction calls)
    case Nil
    show ?case by simp
  next
    case (Cons c calls)
    obtain t s' where "c = (t, s')" by (cases c)
    with Cons one show ?case by simp
  qed
  from one run marked show ?thesis by simp
qed

theorem marked_for_deletion_terminal_witness:
  "state_set (PTime 5) FILE_IS_IDLE (sample_file\<lparr>m_state := FILE_IS_MARKED_FOR_DELETION\<rparr>)
     = sample_file\<lparr>m_state := FILE_IS_MARKED_FOR_DELETION\<rparr> \<and>
   m_state (state_set_all [(PTime 5, FILE_IS_IDLE), (PTime 6, FILE_IS_IN_USE_BY_SYNC)]
     (sample_file\<lparr>m_state := FILE_IS_MARKED_FOR_DELETION\<rparr>)) = FILE_IS_MARKED_FOR_DELETION"
proof -
  have marked: "m_state (sample_file\<lparr>m_state := FILE_IS_MARKED_FOR_DELETION\<rparr>)
      = FILE_IS_MARKED_FOR_DELETION"
    by simp
  from marked_for_deletion_terminal [OF marked, of "PTime 5" FILE_IS_IDLE
      "[(PTime 5, FILE_IS_IDLE), (PTime 6, FILE_IS_IN_USE_BY_SYNC)]"]
  show ?thesis by blast
qed

subsection \<open>Construction\<close>

text \<open>
  C10. When the network identity of the path cannot be restored, the constructor stores
  \<open>FILE_IS_FORBIDDEN\<close> and returns before the two counters and the retry interval are
  assigned: the users and subscribers counters still hold what the allocation left
  there, and the interval is the default-constructed duration. When the decoding is
  valid the file stays amorphous, both counters are 0 and the interval is the default
  time slice in minutes.
\<close>

theorem File_ctor_early_return:
  "(\<not> valid (fst (restoreNetworkPathFromLocal ext path)) \<longrightarrow>
      m_state (File_ctor ext raw path) = FILE_IS_FORBIDDEN \<and>
      m_users (File_ctor ext raw path) = raw_users raw \<and>
      m_subscribers (File_ctor ext raw path) = raw_subscribers raw \<and>
      m_duration_next_attempt_to_sync (File_ctor ext raw path) = time_duration_default) \<and>
   (valid (fst (restoreNetworkPathFromLocal ext path)) \<longrightarrow>
      m_state (File_ctor ext raw path) = FILE_IS_AMORPHOUS \<and>
      m_users (File_ctor ext raw path) = 0 \<and>
      m_subscribers (File_ctor ext raw path) = 0 \<and>
      m_duration_next_attempt_to_sync (File_ctor ext raw path)
        = minutes (defaultTimeSliceInMinutes ext))"
  by (auto simp: File_ctor_def Let_def split: prod.splits)

theorem File_ctor_early_return_witness:
  "\<not> valid (fst (restoreNetworkPathFromLocal sample_ext ''/r/junk'')) \<and>
   m_state (File_ctor sample_ext sample_raw ''/r/junk'') = FILE_IS_FORBIDDEN \<and>
   m_users (File_ctor sample_ext sample_raw ''/r/junk'') = 7 \<and>
   m_subscribers (File_ctor sample_ext sample_raw ''/r/junk'') = 9 \<and>
   m_duration_next_attempt_to_sync (File_ctor sample_ext sample_raw ''/r/junk'') = 0 \<and>
   valid (fst (restoreNetworkPathFromLocal sample_ext ''/r/hdfs/nn_8020/a'')) \<and>
   m_state (File_ctor sample_ext sample_raw ''/r/hdfs/nn_8020/a'') = FILE_IS_AMORPHOUS \<and>
   m_users (File_ctor sample_ext sample_raw ''/r/hdfs/nn_8020/a'') = 0 \<and>
   m_subscribers (File_ctor sample_ext sample_raw ''/r/hdfs/nn_8020/a'') = 0 \<and>
   m_duration_next_attempt_to_sync (File_ctor sample_ext sample_raw ''/r/hdfs/nn_8020/a'')
     = 360000000"
proof -
  have rejected: "\<not> valid (fst (restoreNetworkPathFromLocal sample_ext ''/r/junk''))"
    by (simp add: sample_ext_def sample_restore_def)
  have accepted: "valid (fst (restoreNetworkPathFromLocal sample_ext ''/r/hdfs/nn_8020/a''))"
    by (simp add: sample_ext_def sample_restore_def)
  from File_ctor_early_return [of sample_ext "''/r/junk''" sample_raw] rejected
  have "m_state (File_ctor sample_ext sample_raw ''/r/junk'') = FILE_IS_FORBIDDEN \<and>
      m_users (File_ctor sample_ext sample_raw ''/r/junk'') = 7 \<and>
      m_subscribers (File_ctor sample_ext sample_raw ''/r/junk'') = 9 \<and>
      m_duration_next_attempt_to_sync (File_ctor sample_ext sample_raw ''/r/junk'') = 0"
    by (simp add: sample_raw_def time_duration_default_def)
  moreover
  from File_ctor_early_return [of sample_ext "''/r/hdfs/nn_8020/a''" sample_raw] accepted
  have "m_state (File_ctor sample_ext sample_raw ''/r/hdfs/nn_8020/a'') = FILE_IS_AMORPHOUS \<and>
      m_users (File_ctor sample_ext sample_raw ''/r/hdfs/nn_8020/a'') = 0 \<and>
      m_subscribers (File_ctor sample_ext sample_raw ''/r/hdfs/nn_8020/a'') = 0 \<and>
      m_duration_next_attempt_to_sync (File_ctor sample_ext sample_raw ''/r/hdfs/nn_8020/a'')
        = 360000000"
    by (simp add: sample_ext_def minutes_def)
  ultimately show ?thesis using rejected accepted by blast
qed

subsection \<open>The estimated size\<close>

lemma sint_difference:
  fixes a b :: "64 word"
  assumes "- (2 ^ 63) \<le> uint a - uint b" "uint a - uint b < 2 ^ 63"
  shows "sint (a - b) = uint a - uint b"
proof -
  have "sint (a - b) = signed_take_bit 63 (uint (a - b))"
    by (simp add: sint_uint)
  also have "uint (a - b) = take_bit 64 (uint a - uint b)"
    by (simp add: uint_word_ariths take_bit_eq_mod)
  also have "signed_take_bit 63 (take_bit 64 (uint a - uint b))
      = signed_take_bit 63 (uint a - uint b)"
    by (simp add: signed_take_bit_take_bit)
  also have "\<dots> = uint a - uint b"
    using assms by (intro signed_take_bit_int_eq_self) simp_all
  finally show ?thesis .
qed

lemma sint_difference_wraps:
  fixes a b :: "64 word"
  shows "sint (a - b) = signed_take_bit 63 (uint a - uint b)"
proof -
  have "sint (a - b) = signed_take_bit 63 (uint (a - b))"
    by (simp add: sint_uint)
  also have "uint (a - b) = take_bit 64 (uint a - uint b)"
    by (simp add: uint_word_ariths take_bit_eq_mod)
  also have "signed_take_bit 63 (take_bit 64 (uint a - uint b))
      = signed_take_bit 63 (uint a - uint b)"
    by (simp add: signed_take_bit_take_bit)
  finally show ?thesis .
qed

text \<open>
  C9, as amended. For every file and every new size \<open>n\<close> the setter calls the
  weight-change callback, if one is assigned, with the 64-bit difference between \<open>n\<close>
  and the previous size read as a two's-complement \<open>long long\<close>, that is, with the
  difference of the two sizes reduced modulo \<open>2^64\<close> into the signed range; it then
  leaves both the previous size and the estimated size at \<open>n\<close>. Whenever the
  difference fits the signed range (it does when both sizes are below \<open>2^63\<close>) the
  argument is exactly that difference, which is negative when \<open>n\<close> is the smaller.
\<close>

theorem estimated_size_set_delta:
  "fst (estimated_size_set n f)
     = (if m_weightIsChangedcallback f then Some (sint (n - m_prevsize f)) else None) \<and>
   sint (n - m_prevsize f) = signed_take_bit 63 (uint n - uint (m_prevsize f)) \<and>
   m_prevsize (snd (estimated_size_set n f)) = n \<and>
   m_estimatedsize (snd (estimated_size_set n f)) = n \<and>
   (- (2 ^ 63) \<le> uint n - uint (m_prevsize f) \<and> uint n - uint (m_prevsize f) < 2 ^ 63 \<longrightarrow>
      sint (n - m_prevsize f) = uint n - uint (m_prevsize f)) \<and>
   (uint n < 2 ^ 63 \<and> uint (m_prevsize f) < 2 ^ 63 \<longrightarrow>
      sint (n - m_prevsize f) = uint n - uint (m_prevsize f)) \<and>
   (n < m_prevsize f \<longrightarrow> uint n - uint (m_prevsize f) < 0)"
proof -
  have small: "sint (n - m_prevsize f) = uint n - uint (m_prevsize f)"
    if "uint n < 2 ^ 63" "uint (m_prevsize f) < 2 ^ 63"
  proof (rule sint_difference)
    have "0 \<le> uint n" "0 \<le> uint (m_prevsize f)" by simp_all
    with that show "- (2 ^ 63) \<le> uint n - uint (m_prevsize f)"
      and "uint n - uint (m_prevsize f) < 2 ^ 63"
      by linarith+
  qed
  have fired: "fst (estimated_size_set n f)
      = (if m_weightIsChangedcallback f then Some (sint (n - m_prevsize f)) else None)"
    and stored: "m_prevsize (snd (estimated_size_set n f)) = n"
      "m_estimatedsize (snd (estimated_size_set n f)) = n"
    by (simp_all add: estimated_size_set_def Let_def)
  have wraps: "sint (n - m_prevsize f) = signed_take_bit 63 (uint n - uint (m_prevsize f))"
    by (rule sint_difference_wraps)
  have fits: "sint (n - m_prevsize f) = uint n - uint (m_prevsize f)"
    if "- (2 ^ 63) \<le> uint n - uint (m_prevsize f) \<and> uint n - uint (m_prevsize f) < 2 ^ 63"
    using that by (intro sint_difference) simp_all
  have negative: "uint n - uint (m_prevsize f) < 0" if "n < m_prevsize f"
    using that by (simp add: word_less_def)
  from fired stored wraps fits small negative show ?thesis by blast
qed

theorem estimated_size_set_delta_witness:
  "(10 :: 64 word) < m_prevsize sample_file \<and>
   fst (estimated_size_set 10 sample_file) = Some (- 20) \<and>
   m_prevsize (snd (estimated_size_set 10 sample_file)) = 10 \<and>
   m_estimatedsize (snd (estimated_size_set 10 sample_file)) = 10 \<and>
   fst (estimated_size_set (2 ^ 64 - 1) (sample_file\<lparr>m_prevsize := 0\<rparr>)) = Some (- 1)"
proof -
  have range: "- (2 ^ 63) \<le> uint (10 :: 64 word) - uint (m_prevsize sample_file) \<and>
      uint (10 :: 64 word) - uint (m_prevsize sample_file) < 2 ^ 63"
    by (simp add: sample_file_def)
  have smaller: "(10 :: 64 word) < m_prevsize sample_file"
    by (simp add: sample_file_def)
  have cb: "m_weightIsChangedcallback sample_file"
    by (simp add: sample_file_def)
  from estimated_size_set_delta [of 10 sample_file] range cb
  have "fst (estimated_size_set 10 sample_file)
      = Some (uint (10 :: 64 word) - uint (m_prevsize sample_file))"
    "m_prevsize (snd (estimated_size_set 10 sample_file)) = 10"
    "m_estimatedsize (snd (estimated_size_set 10 sample_file)) = 10"
    by simp_all
  moreover have "uint (10 :: 64 word) - uint (m_prevsize sample_file) = - 20"
    by (simp add: sample_file_def)
  moreover
  from estimated_size_set_delta [of "2 ^ 64 - 1" "sample_file\<lparr>m_prevsize := 0\<rparr>"] cb
  have "fst (estimated_size_set (2 ^ 64 - 1) (sample_file\<lparr>m_prevsize := 0\<rparr>))
      = Some (sint (2 ^ 64 - 1 :: 64 word))"
    by simp
  moreover have "sint (2 ^ 64 - 1 :: 64 word) = - 1"
    by simp
  ultimately show ?thesis using smaller by simp
qed

text \<open>
  The claim as written fails where the difference does not fit: from a previous size
  of 0 to a new size of \<open>2^63\<close> the callback receives \<open>- 2^63\<close>, not \<open>2^63\<close>.
\<close>

theorem estimated_size_set_delta_wraps:
  "fst (estimated_size_set (2 ^ 63) (sample_file\<lparr>m_prevsize := 0\<rparr>)) = Some (- (2 ^ 63)) \<and>
   uint (2 ^ 63 :: 64 word) - uint (m_prevsize (sample_file\<lparr>m_prevsize := 0\<rparr>)) = 2 ^ 63 \<and>
   fst (estimated_size_set (2 ^ 63) (sample_file\<lparr>m_prevsize := 0\<rparr>))
     \<noteq> Some (uint (2 ^ 63 :: 64 word) - uint (m_prevsize (sample_file\<lparr>m_prevsize := 0\<rparr>)))"
  by (simp add: estimated_size_set_def sample_file_def)

subsection \<open>The last access time\<close>

lemma map_of_touch:
  "map_of (map (\<lambda>(q, e). if q = k then (q, e\<lparr>mtime := t\<rparr>) else (q, e)) fs) x
     = map_option (\<lambda>e. if x = k then e\<lparr>mtime := t\<rparr> else e) (map_of fs x)"
  by (induction fs) auto

lemma resolve_touch:
  assumes "resolve fs p = Some (k, e0)"
  shows "resolve (map (\<lambda>(q, e). if q = k then (q, e\<lparr>mtime := t\<rparr>) else (q, e)) fs) p
    = Some (k, e0\<lparr>mtime := t\<rparr>)"
proof -
  from assms have k: "k = canonical p" and e0: "map_of fs (canonical p) = Some e0"
    and dir: "\<not> (trailing_separator (squeeze p) \<and> ftype e0 \<noteq> directory_file)"
    by (auto simp: resolve_def split: option.splits if_splits)
  from e0 k have "map_of (map (\<lambda>(q, e). if q = k then (q, e\<lparr>mtime := t\<rparr>) else (q, e)) fs)
      (canonical p) = Some (e0\<lparr>mtime := t\<rparr>)"
    by (simp add: map_of_touch)
  with dir k show ?thesis by (simp add: resolve_def)
qed

text \<open>
  C8, as amended. On a forbidden file the setter \<open>last_access(t)\<close> returns \<open>-1\<close> and
  changes neither the object nor the disk. In every other state it leaves the object
  as it is (the class has no time stamp of the last access to update) and writes the
  time, converted to \<open>time_t\<close>, as the last write time of the file on disk: it returns 0
  when the path exists, and the error code without touching the disk when it does not.
\<close>

theorem last_access_set_contract:
  "(m_state f = FILE_IS_FORBIDDEN \<longrightarrow> last_access_set ext t f fs = (- 1, f, fs)) \<and>
   (m_state f \<noteq> FILE_IS_FORBIDDEN \<longrightarrow>
      (case last_access_set ext t f fs of
         (rc, f', fs') \<Rightarrow>
           f' = f \<and>
           (fs_exists fs (m_fqp f) \<longrightarrow>
              rc = 0 \<and> last_write_time fs' (m_fqp f) = Some (posix_time_to_time_t ext t)) \<and>
           (\<not> fs_exists fs (m_fqp f) \<longrightarrow> rc = ENOENT \<and> fs' = fs)))"
  by (auto simp: last_access_set_def last_write_time_set_def fs_exists_def last_write_time_def
      resolve_touch split: option.splits)

theorem last_access_set_contract_witness:
  "last_access_set sample_ext (PTime 5000000) (sample_file\<lparr>m_state := FILE_IS_FORBIDDEN\<rparr>)
       sample_disk
     = (- 1, sample_file\<lparr>m_state := FILE_IS_FORBIDDEN\<rparr>, sample_disk) \<and>
   (case last_access_set sample_ext (PTime 5000000) sample_file sample_disk of
      (rc, f', fs') \<Rightarrow>
        f' = sample_file \<and> rc = 0 \<and> last_write_time fs' ''/r/hdfs/nn_8020/a'' = Some 5) \<and>
   (case last_access_set sample_ext (PTime 5000000) (sample_file\<lparr>m_fqp := ''/gone''\<rparr>)
           sample_disk of
      (rc, f', fs') \<Rightarrow> rc = 2 \<and> fs' = sample_disk)"
proof -
  have there: "fs_exists sample_disk (m_fqp sample_file)"
    by (simp add: fs_exists_def resolve_def canonical_def trailing_separator_def
        sample_disk_def sample_file_def)
  have gone: "\<not> fs_exists sample_disk (m_fqp (sample_file\<lparr>m_fqp := ''/gone''\<rparr>))"
    by (simp add: fs_exists_def resolve_def canonical_def trailing_separator_def
        sample_disk_def)
  have idle: "m_state sample_file \<noteq> FILE_IS_FORBIDDEN"
    by (simp add: sample_file_def)
  have t: "posix_time_to_time_t sample_ext (PTime 5000000) = 5"
    by (simp add: sample_ext_def sample_to_time_t_def)
  from last_access_set_contract
    [of "sample_file\<lparr>m_state := FILE_IS_FORBIDDEN\<rparr>" sample_ext "PTime 5000000" sample_disk]
  have a: "last_access_set sample_ext (PTime 5000000)
      (sample_file\<lparr>m_state := FILE_IS_FORBIDDEN\<rparr>) sample_disk
      = (- 1, sample_file\<lparr>m_state := FILE_IS_FORBIDDEN\<rparr>, sample_disk)"
    by simp
  from last_access_set_contract [of sample_file sample_ext "PTime 5000000" sample_disk]
    there idle t
  have b: "case last_access_set sample_ext (PTime 5000000) sample_file sample_disk of
      (rc, f', fs') \<Rightarrow>
        f' = sample_file \<and> rc = 0 \<and> last_write_time fs' ''/r/hdfs/nn_8020/a'' = Some 5"
    by (auto simp: sample_file_def split: prod.splits)
  from last_access_set_contract
    [of "sample_file\<lparr>m_fqp := ''/gone''\<rparr>" sample_ext "PTime 5000000" sample_disk]
    gone idle
  have c: "case last_access_set sample_ext (PTime 5000000) (sample_file\<lparr>m_fqp := ''/gone''\<rparr>)
        sample_disk of
      (rc, f', fs') \<Rightarrow> rc = 2 \<and> fs' = sample_disk"
    by (auto simp: ENOENT_def split: prod.splits)
  from a b c show ?thesis by blast
qed

text \<open>
  The claim as written fails on an idle file: the call succeeds and the disk carries
  the new time, but the object is what it was; its only time stamp, that of the last
  synchronisation attempt, is not the time handed in.
\<close>

theorem last_access_set_no_memory_timestamp:
  "(case last_access_set sample_ext (PTime 5000000) sample_file sample_disk of
      (rc, f', fs') \<Rightarrow>
        rc = 0 \<and> last_write_time fs' (m_fqp sample_file) = Some 5 \<and>
        f' = sample_file \<and> m_lastsyncattempt f' \<noteq> PTime 5000000)"
  by (simp add: last_access_set_def last_write_time_set_def last_write_time_def
      resolve_def canonical_def trailing_separator_def
      sample_file_def sample_disk_def sample_ext_def sample_to_time_t_def)

section \<open>Properties of the cache\<close>

text \<open>The equations that run the definitions on the sample cache.\<close>

lemmas sample_defs = sample_world_def sample_disk_def sample_ext_def sample_restore_def
  sample_raw_def sample_file_def sample_to_time_t_def world_with_def

lemmas cache_defs = add_def new_File_def delete_File_def store_File_def LRUCache_add_def
  lru_find_def find_file_def getWeight_def getTimestamp_def getCapacity_def isItemIdle_def
  deleteFile_def reload_def reset_def clear_def continuationFor_def

lemmas file_defs = File_ctor_def estimated_size_set_def state_set_def notify_all_def
  state_def valid_file_def size_of_file_def file_size_def last_access_def last_write_time_def
  from_time_t_def ptime_less_def drop_file_def to_string_def digits_of.simps digit_char_def
  minutes_def resolve_def canonical_def trailing_separator_def
  time_duration_default_def

lemmas disk_defs = collect_result_set_def fs_exists_def is_directory_def
  recursive_directory_iterator_def below_def with_separator_def resolve_def canonical_def
  trailing_separator_def

subsection \<open>The store after a reload\<close>

lemma store_allocatedI:
  "(\<And>e. e \<in> set (lru_entries w) \<Longrightarrow> e < next_addr w \<and> entry_decodable ext w e)
     \<Longrightarrow> store_allocated ext w"
  by (simp add: store_allocated_def list_all_iff)

lemma store_allocatedD:
  "store_allocated ext w \<Longrightarrow> e \<in> set (lru_entries w) \<Longrightarrow>
     e < next_addr w \<and> entry_decodable ext w e"
  by (simp add: store_allocated_def list_all_iff)

lemma deleteFile_cases:
  assumes "deleteFile e p w = Inr (deleted, w1)"
  shows "(deleted \<longrightarrow> heap w1 = (heap w)(e := None) \<and> lru_entries w1 = lru_entries w \<and>
            next_addr w1 = next_addr w) \<and>
         (\<not> deleted \<longrightarrow> w1 = w)"
  using assms
  by (auto simp: deleteFile_def Let_def delete_File_def store_File_def
      split: option.splits if_splits)


lemma deleteFile_idle:
  "heap w e = Some g \<Longrightarrow> isItemIdle g \<Longrightarrow>
     \<exists>w1. deleteFile e p w = Inr (True, w1) \<and> heap w1 = (heap w)(e := None) \<and>
       lru_entries w1 = lru_entries w \<and> next_addr w1 = next_addr w"
  by (simp add: deleteFile_def Let_def delete_File_def store_File_def)

lemma evict_Cons_cases:
  assumes "evict ext need (e # es) w = Inr w'"
  obtains
    (fits) "current_weight w + need \<le> unat (getCapacity w)" "w' = w"
  | (busy) g where "heap w e = Some g" "\<not> isItemIdle g" "evict ext need es w = Inr w'"
  | (evicted) g w1 where "heap w e = Some g" "isItemIdle g"
      "deleteFile e (lru_evicts_physically ext) w = Inr (True, w1)"
      "evict ext need es
         (w1\<lparr>lru_entries := removeAll e (lru_entries w1),
             current_weight := current_weight w1 - unat (getWeight w (Some g))\<rparr>) = Inr w'"
proof (cases "current_weight w + need \<le> unat (getCapacity w)")
  case True
  with assms have "w' = w" by simp
  with True show ?thesis by (rule fits)
next
  case False
  with assms obtain g where g: "heap w e = Some g"
    by (cases "heap w e") simp_all
  show ?thesis
  proof (cases "isItemIdle g")
    case idle: False
    with assms False g have "evict ext need es w = Inr w'" by simp
    with g idle show ?thesis by (rule busy)
  next
    case idle: True
    from deleteFile_idle [OF g idle] obtain w1 where
      d: "deleteFile e (lru_evicts_physically ext) w = Inr (True, w1)" by blast
    with assms False g idle
    have "evict ext need es
         (w1\<lparr>lru_entries := removeAll e (lru_entries w1),
             current_weight := current_weight w1 - unat (getWeight w (Some g))\<rparr>) = Inr w'"
      by simp
    with g idle d show ?thesis by (rule evicted)
  qed
qed


lemma evict_keeps:
  "store_allocated ext w \<Longrightarrow> evict ext need es w = Inr w' \<Longrightarrow>
     store_allocated ext w' \<and> next_addr w' = next_addr w \<and>
     set (lru_entries w') \<subseteq> set (lru_entries w) \<and>
     (\<forall>a. a \<notin> set es \<longrightarrow> heap w' a = heap w a)"
proof (induction es arbitrary: w)
  case Nil
  then show ?case by simp
next
  case (Cons e es)
  from Cons.prems(2) show ?case
  proof (cases rule: evict_Cons_cases)
    case fits
    with Cons.prems(1) show ?thesis by simp
  next
    case (busy g)
    from Cons.IH [OF Cons.prems(1) busy(3)] show ?thesis by simp
  next
    case (evicted g w1)
    let ?w2 = "w1\<lparr>lru_entries := removeAll e (lru_entries w1),
                  current_weight := current_weight w1 - unat (getWeight w (Some g))\<rparr>"
    from deleteFile_cases [OF evicted(3)]
    have h1: "heap w1 = (heap w)(e := None)"
      and l1: "lru_entries w1 = lru_entries w" and n1: "next_addr w1 = next_addr w"
      by simp_all
    have inv2: "store_allocated ext ?w2"
    proof (rule store_allocatedI)
      fix a assume "a \<in> set (lru_entries ?w2)"
      then have a: "a \<in> set (lru_entries w)" "a \<noteq> e" using l1 by auto
      from store_allocatedD [OF Cons.prems(1) a(1)] a(2) h1 n1
      show "a < next_addr ?w2 \<and> entry_decodable ext ?w2 a"
        by (simp add: entry_decodable_def)
    qed
    from Cons.IH [OF inv2 evicted(4)]
    have r: "store_allocated ext w'" "next_addr w' = next_addr ?w2"
      "set (lru_entries w') \<subseteq> set (lru_entries ?w2)"
      "\<And>a. a \<notin> set es \<Longrightarrow> heap w' a = heap ?w2 a"
      by blast+
    have "next_addr w' = next_addr w" using r(2) n1 by simp
    moreover have "set (lru_entries w') \<subseteq> set (lru_entries w)"
      using r(3) l1 by auto
    moreover have "heap w' a = heap w a" if "a \<notin> set (e # es)" for a
      using r(4) [of a] that h1 by simp
    ultimately show ?thesis using r(1) by blast
  qed
qed

lemma insert_by_timestamp_set:
  "insert_by_timestamp w t item es = Inr es' \<Longrightarrow> set es' = insert item (set es)"
proof (induction es arbitrary: es')
  case Nil
  then show ?case by auto
next
  case (Cons e es)
  from Cons.prems obtain g where g: "heap w e = Some g"
    by (cases "heap w e") simp_all
  show ?case
  proof (cases "ptime_less t (getTimestamp w g)")
    case True
    with Cons.prems g have "es' = item # e # es" by simp
    then show ?thesis by auto
  next
    case False
    with Cons.prems g obtain es2 where
      es2: "insert_by_timestamp w t item es = Inr es2" and "es' = e # es2"
      by (cases "insert_by_timestamp w t item es") simp_all
    from Cons.IH [OF es2] \<open>es' = e # es2\<close> show ?thesis by auto
  qed
qed


lemma m_fqp_File_ctor: "m_fqp (File_ctor ext raw path) = path"
  by (simp add: File_ctor_def Let_def split: prod.splits)

lemma m_fqp_estimated_size_set: "m_fqp (snd (estimated_size_set n f)) = m_fqp f"
  by (simp add: estimated_size_set_def Let_def)

lemma m_fqp_state_set: "m_fqp (state_set now s f) = m_fqp f"
  by (simp add: state_set_def notify_all_def Let_def)

lemma store_File_keeps:
  assumes "store_allocated ext w" "heap w a = Some f" "m_fqp f' = m_fqp f"
  shows "store_allocated ext (store_File a f' w)"
proof (rule store_allocatedI)
  fix e assume "e \<in> set (lru_entries (store_File a f' w))"
  then have "e \<in> set (lru_entries w)" by (simp add: store_File_def)
  from store_allocatedD [OF assms(1) this] assms(2,3)
  show "e < next_addr (store_File a f' w) \<and> entry_decodable ext (store_File a f' w) e"
    by (auto simp: store_File_def entry_decodable_def)
qed

lemma LRUCache_add_keeps:
  assumes inv: "store_allocated ext w"
    and item: "heap w item = Some f" "item < next_addr w" "item \<notin> set (lru_entries w)"
    and dec: "valid (fst (restoreNetworkPathFromLocal ext (m_fqp f)))"
    and res: "LRUCache_add ext item w = Inr (s, d, it, w')"
  shows "(d \<longrightarrow> w' = w) \<and> (\<not> d \<longrightarrow> store_allocated ext w' \<and> it = item)"
proof (cases "lru_find w (m_fqp f)")
  case (Some existing)
  with res item(1) show ?thesis by (simp add: LRUCache_add_def)
next
  case None
  with res item(1) obtain w1 where
    ev: "evict ext (unat (getWeight w (Some f))) (lru_entries w) w = Inr w1"
    by (cases "evict ext (unat (getWeight w (Some f))) (lru_entries w) w")
       (simp_all add: LRUCache_add_def)
  with res item(1) None obtain es where
    ins: "insert_by_timestamp w1 (getTimestamp w1 f) item (lru_entries w1) = Inr es"
    by (cases "insert_by_timestamp w1 (getTimestamp w1 f) item (lru_entries w1)")
       (simp_all add: LRUCache_add_def)
  from res item(1) None ev ins have w': "w' = w1\<lparr>lru_entries := es,
      current_weight := current_weight w1 + unat (getWeight w (Some f))\<rparr>"
    and d: "\<not> d" and it: "it = item"
    by (simp_all add: LRUCache_add_def)
  from evict_keeps [OF inv ev] item(3)
  have inv1: "store_allocated ext w1" and n1: "next_addr w1 = next_addr w"
    and h1: "heap w1 item = heap w item"
    by blast+
  have "store_allocated ext w'"
  proof (rule store_allocatedI)
    fix a assume "a \<in> set (lru_entries w')"
    with w' insert_by_timestamp_set [OF ins]
    have "a = item \<or> a \<in> set (lru_entries w1)" by simp
    then show "a < next_addr w' \<and> entry_decodable ext w' a"
    proof
      assume "a = item"
      with h1 item(1,2) n1 dec w' show ?thesis by (simp add: entry_decodable_def)
    next
      assume "a \<in> set (lru_entries w1)"
      from store_allocatedD [OF inv1 this] w' show ?thesis
        by (simp add: entry_decodable_def)
    qed
  qed
  with d it show ?thesis by simp
qed

lemma add_keeps:
  assumes inv: "store_allocated ext w"
    and dec: "valid (fst (restoreNetworkPathFromLocal ext path))"
    and res: "add ext path w = Inr (s, file, w1)"
    and live: "heap w1 file = Some f"
  shows "store_allocated ext w1"
proof -
  let ?n = "next_addr w"
  let ?f0 = "File_ctor ext (garbage w ?n) path"
  let ?wa = "w\<lparr>heap := (heap w)(?n \<mapsto> ?f0), next_addr := Suc ?n\<rparr>"
  from res obtain sz where sz: "file_size (disk ?wa) path = Some sz"
    by (cases "file_size (disk ?wa) path") (simp_all add: add_def new_File_def Let_def)
  let ?f2 = "snd (estimated_size_set sz ?f0)"
  let ?w2 = "store_File ?n ?f2 ?wa"
  from res sz obtain s' d it w3 where
    la: "LRUCache_add ext ?n ?w2 = Inr (s', d, it, w3)"
    by (cases "LRUCache_add ext ?n ?w2") (auto simp: add_def new_File_def Let_def)
  have fresh: "?n \<notin> set (lru_entries w)"
    using store_allocatedD [OF inv, of ?n] by auto
  have inv2: "store_allocated ext ?w2"
  proof (rule store_allocatedI)
    fix e assume "e \<in> set (lru_entries ?w2)"
    then have e: "e \<in> set (lru_entries w)" by (simp add: store_File_def)
    with fresh have "e \<noteq> ?n" by auto
    with store_allocatedD [OF inv e]
    show "e < next_addr ?w2 \<and> entry_decodable ext ?w2 e"
      by (simp add: store_File_def entry_decodable_def)
  qed
  have item: "heap ?w2 ?n = Some ?f2" "?n < next_addr ?w2" "?n \<notin> set (lru_entries ?w2)"
    using fresh by (simp_all add: store_File_def)
  have dec2: "valid (fst (restoreNetworkPathFromLocal ext (m_fqp ?f2)))"
    using dec by (simp add: m_fqp_estimated_size_set m_fqp_File_ctor)
  note k = LRUCache_add_keeps [OF inv2 item dec2 la]
  show ?thesis
  proof (cases d)
    case True
    with res sz la have "w1 = delete_File it w3" "file = it"
      by (auto simp: add_def new_File_def Let_def)
    with live show ?thesis by (simp add: delete_File_def)
  next
    case False
    with res sz la have "w1 = w3" by (simp add: add_def new_File_def Let_def)
    with k False show ?thesis by simp
  qed
qed

lemma populate_keeps:
  "store_allocated ext w \<Longrightarrow> populate ext rs w = Inr w' \<Longrightarrow> store_allocated ext w'"
proof (induction rs arbitrary: w)
  case Nil
  then show ?case by simp
next
  case (Cons r rs)
  obtain t lp where r: "r = (t, lp)" by (cases r)
  show ?case
  proof (cases "valid (fst (restoreNetworkPathFromLocal ext lp))")
    case False
    with Cons.prems(2) r have "populate ext rs w = Inr w'" by simp
    from Cons.IH [OF Cons.prems(1) this] show ?thesis .
  next
    case True
    with Cons.prems(2) r obtain s fl w1 where
      a: "add ext lp w = Inr (s, fl, w1)"
      by (cases "add ext lp w") auto
    with Cons.prems(2) r True obtain f where f: "heap w1 fl = Some f"
      by (cases "heap w1 fl") simp_all
    let ?w2 = "store_File fl (state_set (PTime (clock w1)) FILE_IS_IDLE f) w1"
    from Cons.prems(2) r True a f have p: "populate ext rs ?w2 = Inr w'" by simp
    from add_keeps [OF Cons.prems(1) True a f] have "store_allocated ext w1" .
    from store_File_keeps [OF this f m_fqp_state_set]
    have "store_allocated ext ?w2" .
    from Cons.IH [OF this p] show ?thesis .
  qed
qed

lemma reload_keeps:
  assumes "reload ext root w = Inr (True, w')"
  shows "store_decodable ext w'"
proof -
  from assms have root: "root \<noteq> []"
    by (auto simp: reload_def)
  let ?rs = "collect_result_set (disk w) root"
  define k where "k = (case ?rs of
      [] \<Rightarrow> past_the_end_key (reset (w\<lparr>m_root := root\<rparr>))
    | (t, lp) # rest \<Rightarrow> t)"
  let ?w2 = "(reset (w\<lparr>m_root := root\<rparr>))\<lparr>m_startTime := from_time_t k\<rparr>"
  from assms root have "populate ext ?rs ?w2 = Inr w'"
    by (cases "populate ext ?rs ?w2") (simp_all add: reload_def Let_def k_def)
  moreover have "store_allocated ext ?w2"
    by (simp add: store_allocated_def reset_def clear_def)
  ultimately have "store_allocated ext w'" by (rule populate_keeps [rotated])
  then show ?thesis
    by (simp add: store_allocated_def store_decodable_def list_all_iff)
qed

subsection \<open>Paths the codec rejects\<close>

lemma constructNew_rejected:
  assumes "\<not> valid (fst (restoreNetworkPathFromLocal ext path))"
  shows "fst (constructNew ext path w) = None \<and>
    heap (snd (constructNew ext path w)) (next_addr w) = None \<and>
    lru_entries (snd (constructNew ext path w)) = lru_entries w"
proof -
  have "m_state (File_ctor ext (garbage w (next_addr w)) path) = FILE_IS_FORBIDDEN"
    using assms by (auto simp: File_ctor_def Let_def split: prod.splits)
  then show ?thesis
    by (simp add: constructNew_def new_File_def delete_File_def state_def Let_def)
qed

lemma store_decodable_find:
  assumes "store_decodable ext w" "\<not> valid (fst (restoreNetworkPathFromLocal ext path))"
  shows "find_file w path = None"
proof -
  have "\<not> (case heap w e of Some g \<Rightarrow> m_fqp g = path | None \<Rightarrow> False)"
    if "e \<in> set (lru_entries w)" for e
  proof (cases "heap w e")
    case None
    then show ?thesis by simp
  next
    case (Some g)
    from assms(1) that have "entry_decodable ext w e"
      by (simp add: store_decodable_def list_all_iff)
    with Some assms(2) show ?thesis
      by (auto simp: entry_decodable_def)
  qed
  then show ?thesis
    by (simp add: find_file_def lru_find_def find_None_iff)
qed

text \<open>
  C7, as amended. For a path the codec rejects, the constructed file is born forbidden;
  the population loop of \<open>reload\<close> passes over the path without admitting anything, and
  after a reload that returned true the store has no entry for it; \<open>constructNew\<close>
  returns \<open>nullptr\<close>, releases the object it built and leaves the store as it was.
  (\<open>add\<close> itself makes no such test.)
\<close>

theorem rejected_path_not_admitted:
  "\<not> valid (fst (restoreNetworkPathFromLocal ext path)) \<Longrightarrow>
     m_state (File_ctor ext raw path) = FILE_IS_FORBIDDEN \<and>
     populate ext ((t, path) # rest) w = populate ext rest w \<and>
     (reload ext root w = Inr (True, w') \<longrightarrow> find_file w' path = None) \<and>
     fst (constructNew ext path w) = None \<and>
     heap (snd (constructNew ext path w)) (next_addr w) = None \<and>
     lru_entries (snd (constructNew ext path w)) = lru_entries w"
proof -
  assume rejected: "\<not> valid (fst (restoreNetworkPathFromLocal ext path))"
  have born: "m_state (File_ctor ext raw path) = FILE_IS_FORBIDDEN"
    using rejected by (auto simp: File_ctor_def Let_def split: prod.splits)
  have skipped: "populate ext ((t, path) # rest) w = populate ext rest w"
    using rejected by simp
  have absent: "find_file w' path = None" if "reload ext root w = Inr (True, w')"
    using store_decodable_find [OF reload_keeps [OF that] rejected] .
  from born skipped absent constructNew_rejected [OF rejected, of w]
  show ?thesis by blast
qed

theorem rejected_path_not_admitted_witness:
  "\<not> valid (fst (restoreNetworkPathFromLocal sample_ext ''/r/junk'')) \<and>
   m_state (File_ctor sample_ext sample_raw ''/r/junk'') = FILE_IS_FORBIDDEN \<and>
   (case reload sample_ext ''/r'' sample_world of
      Inl x \<Rightarrow> False
    | Inr (reloaded, w') \<Rightarrow> reloaded \<and> find_file w' ''/r/junk'' = None \<and> length (lru_entries w') = 2) \<and>
   fst (constructNew sample_ext ''/r/junk'' sample_world) = None \<and>
   heap (snd (constructNew sample_ext ''/r/junk'' sample_world)) 0 = None"
proof -
  have rejected: "\<not> valid (fst (restoreNetworkPathFromLocal sample_ext ''/r/junk''))"
    by (simp add: sample_ext_def sample_restore_def)
  have ran: "case reload sample_ext ''/r'' sample_world of
      Inl x \<Rightarrow> False | Inr (reloaded, w') \<Rightarrow> reloaded \<and> length (lru_entries w') = 2"
    by (simp add: sample_defs cache_defs file_defs disk_defs Let_def)
  then obtain w' where w': "reload sample_ext ''/r'' sample_world = Inr (True, w')"
    and two: "length (lru_entries w') = 2"
    by (cases "reload sample_ext ''/r'' sample_world") auto
  have n0: "next_addr sample_world = 0"
    by (simp add: sample_world_def)
  from rejected_path_not_admitted
    [OF rejected, of sample_raw 0 "[]" sample_world "''/r''" w'] w' two n0 rejected
  show ?thesis by simp
qed

text \<open>
  The claim as written fails for \<open>add\<close>: called with a rejected path of an existing
  file, it admits the forbidden object, and the store then finds it under that path.
\<close>

theorem add_admits_rejected_path:
  "(case add sample_ext ''/r/junk'' sample_world of
      Inl x \<Rightarrow> False
    | Inr (success, file, w') \<Rightarrow>
        success \<and> find_file w' ''/r/junk'' = Some file \<and>
        map_option m_state (heap w' file) = Some FILE_IS_FORBIDDEN) \<and>
   \<not> valid (fst (restoreNetworkPathFromLocal sample_ext ''/r/junk''))"
  by (simp add: sample_defs cache_defs file_defs Let_def)

subsection \<open>Deleting a file\<close>

lemma deleteFile_has_clients:
  "heap w a = Some f \<Longrightarrow> m_state f = FILE_HAS_CLIENTS \<Longrightarrow>
     deleteFile a physically w = Inr (False, w)"
  by (simp add: deleteFile_def isItemIdle_def state_def)

lemma deleteFile_proceeds:
  assumes "heap w a = Some f" "m_state f \<noteq> FILE_HAS_CLIENTS"
  shows "\<exists>w'. deleteFile a physically w = Inr (True, w') \<and> heap w' a = None \<and>
    disk w' = (if physically then drop_file f (disk w) else disk w)"
proof -
  have "drop_file (state_set now FILE_IS_MARKED_FOR_DELETION f) fs = drop_file f fs" for now fs
    by (simp add: drop_file_def m_fqp_state_set)
  with assms show ?thesis
    by (simp add: deleteFile_def isItemIdle_def state_def Let_def delete_File_def
        store_File_def)
qed

text \<open>
  C1. \<open>deleteFile\<close> tests \<open>isItemIdle\<close>, which is false for \<open>FILE_HAS_CLIENTS\<close> alone, and
  marks through the setter rather than through \<open>mark_for_deletion\<close>. So it does not
  refuse a file that cannot be marked for deletion: on a file in use by the
  synchronisation, present on disk with 30 bytes, it returns true, unlinks the file
  and releases the object, and it does the same on a file under write.
\<close>

theorem deleteFile_evicts_file_in_use_by_sync:
  "\<not> markable FILE_IS_IN_USE_BY_SYNC \<and>
   fst (mark_for_deletion (sample_file\<lparr>m_state := FILE_IS_IN_USE_BY_SYNC\<rparr>)) = False \<and>
   file_size (disk (world_with (sample_file\<lparr>m_state := FILE_IS_IN_USE_BY_SYNC\<rparr>) True))
     ''/r/hdfs/nn_8020/a'' = Some 30 \<and>
   (case deleteFile 0 True (world_with (sample_file\<lparr>m_state := FILE_IS_IN_USE_BY_SYNC\<rparr>) True) of
      Inl x \<Rightarrow> False
    | Inr (removed, w') \<Rightarrow>
        removed \<and> heap w' 0 = None \<and> file_size (disk w') ''/r/hdfs/nn_8020/a'' = None) \<and>
   \<not> markable FILE_IS_UNDER_WRITE \<and>
   (case deleteFile 0 True (world_with (sample_file\<lparr>m_state := FILE_IS_UNDER_WRITE\<rparr>) True) of
      Inl x \<Rightarrow> False
    | Inr (removed, w') \<Rightarrow>
        removed \<and> heap w' 0 = None \<and> file_size (disk w') ''/r/hdfs/nn_8020/a'' = None)"
  by (simp add: sample_defs cache_defs file_defs markable_def mark_for_deletion_def
      compare_exchange_strong_def Let_def)

subsection \<open>Fetching a file\<close>

lemma state_set_unmarked:
  "m_state f \<noteq> FILE_IS_MARKED_FOR_DELETION \<Longrightarrow> m_state (state_set now s f) = s"
  by (simp add: state_set_def notify_all_def Let_def)

lemma m_originport_state_set: "m_originport (state_set now s f) = m_originport f"
  by (simp add: state_set_def notify_all_def Let_def)

lemma continuationFor_completed:
  assumes "heap w a = Some f" "valid_file f" "stoi (m_originport f) = Some p"
    and "scheduling prep = OPERATION_ASYNC_SCHEDULED" "completed prep = Some c"
  shows "\<exists>w'. continuationFor prep (Some a) w = Inr w' \<and>
    map_option m_state (heap w' a)
      = Some (if task_status c = COMPLETED_OK then FILE_IS_IDLE else FILE_IS_FORBIDDEN)"
proof -
  from assms(2) have unmarked: "m_state f \<noteq> FILE_IS_MARKED_FOR_DELETION"
    by (simp add: valid_file_def)
  let ?f1 = "state_set (PTime (clock w)) FILE_IS_IN_USE_BY_SYNC f"
  have s1: "m_state ?f1 = FILE_IS_IN_USE_BY_SYNC"
    using unmarked by (rule state_set_unmarked)
  show ?thesis
  proof (cases "task_status c = COMPLETED_OK")
    case True
    with assms s1 show ?thesis
      by (simp add: continuationFor_def Let_def m_originport_state_set store_File_def
          state_set_unmarked)
  next
    case False
    let ?f2 = "state_set (PTime (clock w)) FILE_IS_FORBIDDEN ?f1"
    have "m_state ?f2 = FILE_IS_FORBIDDEN"
      using s1 by (simp add: state_set_unmarked)
    then have "m_state (state_set (PTime (clock w)) FILE_IS_FORBIDDEN ?f2) = FILE_IS_FORBIDDEN"
      by (simp add: state_set_unmarked)
    with assms False show ?thesis
      by (simp add: continuationFor_def Let_def m_originport_state_set store_File_def)
  qed
qed

lemma continuationFor_not_scheduled:
  assumes "heap w a = Some f" "valid_file f" "stoi (m_originport f) = Some p"
    and "scheduling prep \<noteq> OPERATION_ASYNC_SCHEDULED"
  shows "\<exists>w'. continuationFor prep (Some a) w = Inr w' \<and>
    map_option m_state (heap w' a) = Some FILE_IS_IN_USE_BY_SYNC"
proof -
  from assms(2) have "m_state f \<noteq> FILE_IS_MARKED_FOR_DELETION"
    by (simp add: valid_file_def)
  then have "m_state (state_set (PTime (clock w)) FILE_IS_IN_USE_BY_SYNC f)
      = FILE_IS_IN_USE_BY_SYNC"
    by (rule state_set_unmarked)
  with assms show ?thesis
    by (simp add: continuationFor_def Let_def m_originport_state_set store_File_def)
qed

text \<open>The port a decoded file is constructed with is one the fetch can read back.\<close>

lemma port_of_constructed_sample:
  "stoi (m_originport (File_ctor sample_ext sample_raw ''/r/hdfs/nn_8020/a'')) = Some 8020"
  by (simp add: sample_defs file_defs stoi_def isspace_def isdigit_def digit_value_def
      INT_MIN_def INT_MAX_def Let_def)

text \<open>
  C4. A file that \<open>continuationFor\<close> accepts is set to \<open>FILE_IS_IN_USE_BY_SYNC\<close>, and a
  completion callback decides between idle and forbidden. But when the request is not
  scheduled the function returns at once and the file is not set to forbidden: with the
  scheduling status \<open>NAMENODE_IS_NOT_CONFIGURED\<close>, an amorphous file with a readable port
  is left in \<open>FILE_IS_IN_USE_BY_SYNC\<close>.
\<close>

theorem continuationFor_unscheduled_stays_in_sync:
  "valid_file (sample_file\<lparr>m_state := FILE_IS_AMORPHOUS\<rparr>) \<and>
   stoi (m_originport (sample_file\<lparr>m_state := FILE_IS_AMORPHOUS\<rparr>)) = Some 8020 \<and>
   (case continuationFor \<lparr>scheduling = NAMENODE_IS_NOT_CONFIGURED, completed = None\<rparr> (Some 0)
           (world_with (sample_file\<lparr>m_state := FILE_IS_AMORPHOUS\<rparr>) True) of
      Inl x \<Rightarrow> False
    | Inr w' \<Rightarrow> map_option m_state (heap w' 0) = Some FILE_IS_IN_USE_BY_SYNC)"
  by (simp add: sample_defs cache_defs file_defs stoi_def isspace_def isdigit_def
      digit_value_def INT_MIN_def INT_MAX_def Let_def)

subsection \<open>Reloading\<close>

lemma set_multimap_insert: "set (multimap_insert kv xs) = insert kv (set xs)"
  by (induction xs) auto

lemma sorted_multimap_insert:
  "sorted (map fst xs) \<Longrightarrow> sorted (map fst (multimap_insert kv xs))"
  by (induction xs) (auto simp: set_multimap_insert)

lemma distinct_multimap_insert:
  "distinct (map snd xs) \<Longrightarrow> snd kv \<notin> snd ` set xs \<Longrightarrow>
     distinct (map snd (multimap_insert kv xs))"
  by (induction xs) (auto simp: set_multimap_insert)

lemma collect_fold:
  assumes "sorted (map fst acc)" "distinct (map snd acc)" "distinct (map fst xs)"
    "snd ` set acc \<inter> fst ` set xs = {}"
    "\<forall>(t, p) \<in> set acc. \<exists>e. (p, e) \<in> F \<and> ftype e = regular_file \<and> mtime e = t"
    "set xs \<subseteq> F"
  shows "sorted (map fst (foldl collect_step acc xs)) \<and>
         distinct (map snd (foldl collect_step acc xs)) \<and>
         (\<forall>(t, p) \<in> set (foldl collect_step acc xs).
            \<exists>e. (p, e) \<in> F \<and> ftype e = regular_file \<and> mtime e = t)"
  using assms
proof (induction xs arbitrary: acc)
  case Nil
  then show ?case by simp
next
  case (Cons x xs)
  obtain p e where x: "x = (p, e)" by (cases x)
  show ?case
  proof (cases "ftype e = regular_file")
    case False
    with x have step: "collect_step acc x = acc" by (simp add: collect_step_def)
    from Cons.prems have "snd ` set acc \<inter> fst ` set xs = {}" "distinct (map fst xs)" "set xs \<subseteq> F"
      by auto
    with Cons.IH [of acc] Cons.prems(1,2,5) step show ?thesis by simp
  next
    case True
    let ?acc = "multimap_insert (mtime e, p) acc"
    from True x have step: "collect_step acc x = ?acc" by (simp add: collect_step_def)
    from Cons.prems(4) x have fresh: "p \<notin> snd ` set acc" by auto
    have 1: "sorted (map fst ?acc)" using Cons.prems(1) by (rule sorted_multimap_insert)
    have 2: "distinct (map snd ?acc)"
      using Cons.prems(2) fresh by (intro distinct_multimap_insert) simp_all
    have 3: "distinct (map fst xs)" using Cons.prems(3) by simp
    have 4: "snd ` set ?acc \<inter> fst ` set xs = {}"
      using Cons.prems(3,4) x by (auto simp: set_multimap_insert)
    have 5: "\<forall>(t, p) \<in> set ?acc. \<exists>e. (p, e) \<in> F \<and> ftype e = regular_file \<and> mtime e = t"
      using Cons.prems(5,6) x True by (auto simp: set_multimap_insert)
    have 6: "set xs \<subseteq> F" using Cons.prems(6) by simp
    from Cons.IH [OF 1 2 3 4 5 6] step show ?thesis by simp
  qed
qed

lemma sorted_collect_fold:
  "sorted (map fst acc) \<Longrightarrow> sorted (map fst (foldl collect_step acc xs))"
proof (induction xs arbitrary: acc)
  case Nil
  then show ?case by simp
next
  case (Cons x xs)
  obtain p e where x: "x = (p, e)" by (cases x)
  have "sorted (map fst (collect_step acc x))"
    using Cons.prems x by (simp add: collect_step_def sorted_multimap_insert)
  from Cons.IH [OF this] show ?case by simp
qed

lemma set_collect_fold:
  "set (foldl collect_step acc xs)
     = set acc \<union> {(mtime e, p) | p e. (p, e) \<in> set xs \<and> ftype e = regular_file}"
proof (induction xs arbitrary: acc)
  case Nil
  then show ?case by simp
next
  case (Cons x xs)
  obtain p e where x: "x = (p, e)" by (cases x)
  show ?case
    unfolding foldl_Cons Cons.IH x
    by (auto simp: collect_step_def set_multimap_insert)
qed

lemma collect_result_set_fold:
  "collect_result_set fs root =
     (if fs_exists fs root \<and> is_directory fs root
      then foldl collect_step [] (recursive_directory_iterator fs root) else [])"
  by (simp add: collect_result_set_def collect_step_def)

lemma sorted_collect_result_set: "sorted (map fst (collect_result_set fs root))"
  by (simp add: collect_result_set_fold sorted_collect_fold)

lemma set_collect_result_set:
  "(t, p) \<in> set (collect_result_set fs root) \<longleftrightarrow>
     fs_exists fs root \<and> is_directory fs root \<and>
     (\<exists>e. (p, e) \<in> set (recursive_directory_iterator fs root) \<and>
          ftype e = regular_file \<and> mtime e = t)"
  by (auto simp: collect_result_set_fold set_collect_fold)

lemma walk_resolves_paths:
  assumes "walk_resolves fs root"
  shows "distinct (map fst (recursive_directory_iterator fs root)) \<and>
         inj_on canonical (fst ` set (recursive_directory_iterator fs root))"
proof -
  let ?xs = "recursive_directory_iterator fs root"
  have "(\<lambda>(p, e). canonical p) = canonical \<circ> (fst :: string \<times> fs_entry \<Rightarrow> string)"
    by (auto simp: fun_eq_iff)
  with assms have "distinct (map canonical (map fst ?xs))"
    by (simp add: walk_resolves_def)
  then have "distinct (map fst ?xs) \<and> inj_on canonical (set (map fst ?xs))"
    unfolding distinct_map .
  then show ?thesis by simp
qed

lemma collect_result_set_props:
  assumes "walk_resolves fs root"
  shows "sorted (map fst (collect_result_set fs root)) \<and>
         distinct (map snd (collect_result_set fs root)) \<and>
         (\<forall>(t, p) \<in> set (collect_result_set fs root).
            file_size fs p \<noteq> None \<and> last_write_time fs p = Some t)"
proof (cases "fs_exists fs root \<and> is_directory fs root")
  case False
  then have "collect_result_set fs root = []"
    by (auto simp: collect_result_set_def)
  then show ?thesis by simp
next
  case True
  let ?xs = "recursive_directory_iterator fs root"
  have eq: "collect_result_set fs root = foldl collect_step [] ?xs"
    using True by (simp add: collect_result_set_fold)
  have d: "distinct (map fst ?xs)"
    using walk_resolves_paths [OF assms] by simp
  have res: "map_option snd (resolve fs p) = Some e" if "(p, e) \<in> set ?xs" for p e
    using assms that by (auto simp: walk_resolves_def list_all_iff)
  from collect_fold [of "[]" ?xs "set ?xs", OF _ _ d]
  have r: "distinct (map snd (foldl collect_step [] ?xs))"
    "\<forall>(t, p) \<in> set (foldl collect_step [] ?xs).
        \<exists>e. (p, e) \<in> set ?xs \<and> ftype e = regular_file \<and> mtime e = t"
    by simp_all
  have "file_size fs p \<noteq> None \<and> last_write_time fs p = Some t"
    if "(t, p) \<in> set (foldl collect_step [] ?xs)" for t p
  proof -
    from r(2) that obtain e where e: "(p, e) \<in> set ?xs" "ftype e = regular_file" "mtime e = t"
      by blast
    from res [OF e(1)] obtain k where "resolve fs p = Some (k, e)" by auto
    with e(2,3) show ?thesis by (simp add: file_size_def last_write_time_def)
  qed
  with r(1) eq sorted_collect_result_set [of fs root] show ?thesis by auto
qed


lemma evict_fits:
  "current_weight w + need \<le> unat (getCapacity w) \<Longrightarrow> evict ext need es w = Inr w"
  by (cases es) simp_all

lemma insert_by_timestamp_last:
  assumes "\<forall>e \<in> set es. \<exists>g. heap w e = Some g \<and> \<not> ptime_less t (getTimestamp w g)"
  shows "insert_by_timestamp w t item es = Inr (es @ [item])"
  using assms
proof (induction es)
  case Nil
  show ?case by simp
next
  case (Cons e es)
  from Cons.prems obtain g where g: "heap w e = Some g" "\<not> ptime_less t (getTimestamp w g)"
    by auto
  from Cons.prems have "\<forall>e \<in> set es. \<exists>g. heap w e = Some g \<and> \<not> ptime_less t (getTimestamp w g)"
    by simp
  from Cons.IH [OF this] g show ?case by simp
qed

lemma m_state_estimated_size_set: "m_state (snd (estimated_size_set n f)) = m_state f"
  by (simp add: estimated_size_set_def Let_def)

lemma add_fresh:
  assumes ent: "\<forall>e \<in> set (lru_entries w). e < next_addr w \<and>
        (\<exists>g t'. heap w e = Some g \<and> m_fqp g \<noteq> lp \<and>
           last_write_time (disk w) (m_fqp g) = Some t' \<and> t' \<le> t0)"
    and sz: "file_size (disk w) lp = Some sz"
    and t0: "last_write_time (disk w) lp = Some t0"
    and fits: "current_weight w + unat sz \<le> unat (m_capacityLimit w)"
  shows "\<exists>w' f2. add ext lp w = Inr (True, next_addr w, w') \<and>
      heap w' = (heap w)(next_addr w \<mapsto> f2) \<and> m_fqp f2 = lp \<and>
      m_state f2 = m_state (File_ctor ext (garbage w (next_addr w)) lp) \<and>
      next_addr w' = Suc (next_addr w) \<and>
      lru_entries w' = lru_entries w @ [next_addr w] \<and>
      current_weight w' = current_weight w + unat sz \<and>
      disk w' = disk w \<and> clock w' = clock w \<and> m_capacityLimit w' = m_capacityLimit w"
proof -
  let ?n = "next_addr w"
  let ?f0 = "File_ctor ext (garbage w ?n) lp"
  let ?wa = "w\<lparr>heap := (heap w)(?n \<mapsto> ?f0), next_addr := Suc ?n\<rparr>"
  let ?f2 = "snd (estimated_size_set sz ?f0)"
  let ?w2 = "store_File ?n ?f2 ?wa"
  let ?w3 = "?w2\<lparr>lru_entries := lru_entries w @ [?n],
                  current_weight := current_weight w + unat sz\<rparr>"
  have path2: "m_fqp ?f2 = lp"
    by (simp add: m_fqp_estimated_size_set m_fqp_File_ctor)
  have h2: "heap ?w2 ?n = Some ?f2" by (simp add: store_File_def)
  have old: "heap ?w2 e = heap w e" if "e \<in> set (lru_entries w)" for e
  proof -
    from ent that have "e \<noteq> ?n" by auto
    then show ?thesis by (simp add: store_File_def)
  qed
  have "\<not> (case heap ?w2 e of Some g \<Rightarrow> m_fqp g = lp | None \<Rightarrow> False)"
    if "e \<in> set (lru_entries w)" for e
  proof -
    from ent that obtain g where "heap w e = Some g" "m_fqp g \<noteq> lp" by blast
    with old [OF that] show ?thesis by simp
  qed
  then have nf: "lru_find ?w2 lp = None"
    by (simp add: lru_find_def find_None_iff store_File_def)
  have wt: "getWeight ?w2 (Some ?f2) = sz"
    using sz path2 by (simp add: getWeight_def size_of_file_def store_File_def)
  have ev: "evict ext (unat sz) (lru_entries ?w2) ?w2 = Inr ?w2"
    using fits by (intro evict_fits) (simp add: getCapacity_def store_File_def)
  have ts2: "getTimestamp ?w2 ?f2 = from_time_t t0"
    using t0 path2 by (simp add: getTimestamp_def last_access_def store_File_def)
  have "\<exists>g. heap ?w2 e = Some g \<and> \<not> ptime_less (from_time_t t0) (getTimestamp ?w2 g)"
    if "e \<in> set (lru_entries w)" for e
  proof -
    from ent that obtain g t' where g: "heap w e = Some g"
      "last_write_time (disk w) (m_fqp g) = Some t'" "t' \<le> t0" by blast
    from g(2,3) have "\<not> ptime_less (from_time_t t0) (getTimestamp ?w2 g)"
      by (simp add: getTimestamp_def last_access_def store_File_def from_time_t_def
          ptime_less_def)
    with g(1) old [OF that] show ?thesis by simp
  qed
  then have ins: "insert_by_timestamp ?w2 (from_time_t t0) ?n (lru_entries w)
      = Inr (lru_entries w @ [?n])"
    by (intro insert_by_timestamp_last) blast
  have le: "lru_entries ?w2 = lru_entries w" by (simp add: store_File_def)
  have cw: "current_weight ?w2 = current_weight w" by (simp add: store_File_def)
  have la: "LRUCache_add ext ?n ?w2 = Inr (True, False, ?n, ?w3)"
    unfolding LRUCache_add_def using h2 nf wt ev ts2 ins le cw path2
    by simp
  have fs: "file_size (disk ?wa) lp = Some sz" using sz by simp
  have "add ext lp w = Inr (True, ?n, ?w3)"
    unfolding add_def new_File_def Let_def using fs la by simp
  moreover have "heap ?w3 = (heap w)(?n \<mapsto> ?f2)"
    by (simp add: store_File_def)
  moreover have "m_state ?f2 = m_state ?f0"
    by (simp add: m_state_estimated_size_set)
  ultimately show ?thesis using path2
    by (intro exI [of _ ?w3] exI [of _ ?f2]) (simp add: store_File_def)
qed


lemma populate_appends:
  assumes files: "\<forall>(t, p) \<in> set rest.
        file_size (disk w) p \<noteq> None \<and> last_write_time (disk w) p = Some t"
    and srt: "sorted (map fst rest)"
    and dst: "distinct (map snd rest)"
    and ent: "\<forall>e \<in> set (lru_entries w). e < next_addr w \<and>
        (\<exists>g t'. heap w e = Some g \<and> last_write_time (disk w) (m_fqp g) = Some t' \<and>
           (\<forall>(t, p) \<in> set rest. t' \<le> t \<and> m_fqp g \<noteq> p))"
    and fits: "current_weight w + total_weight (disk w) (filter (decodable ext) rest)
        \<le> unat (m_capacityLimit w)"
  shows "\<exists>w'. populate ext rest w = Inr w' \<and> disk w' = disk w \<and>
      store_view w' = store_view w @
        map (\<lambda>(t, p). Some (p, FILE_IS_IDLE)) (filter (decodable ext) rest)"
  using assms
proof (induction rest arbitrary: w)
  case Nil
  show ?case by simp
next
  case (Cons r rest)
  obtain t0 lp where r: "r = (t0, lp)" by (cases r)
  have files': "\<forall>(t, p) \<in> set rest.
        file_size (disk w) p \<noteq> None \<and> last_write_time (disk w) p = Some t"
    using Cons.prems(1) by simp
  have srt': "sorted (map fst rest)" using Cons.prems(2) by simp
  have dst': "distinct (map snd rest)" using Cons.prems(3) by simp
  show ?case
  proof (cases "valid (fst (restoreNetworkPathFromLocal ext lp))")
    case False
    have ent': "\<forall>e \<in> set (lru_entries w). e < next_addr w \<and>
        (\<exists>g t'. heap w e = Some g \<and> last_write_time (disk w) (m_fqp g) = Some t' \<and>
           (\<forall>(t, p) \<in> set rest. t' \<le> t \<and> m_fqp g \<noteq> p))"
      using Cons.prems(4) by fastforce
    have fits': "current_weight w + total_weight (disk w) (filter (decodable ext) rest)
        \<le> unat (m_capacityLimit w)"
      using Cons.prems(5) r False by simp
    from Cons.IH [OF files' srt' dst' ent' fits'] r False show ?thesis by simp
  next
    case True
    let ?n = "next_addr w"
    from Cons.prems(1) r obtain sz where sz: "file_size (disk w) lp = Some sz"
      and t0: "last_write_time (disk w) lp = Some t0"
      by auto
    have ent0: "\<forall>e \<in> set (lru_entries w). e < next_addr w \<and>
        (\<exists>g t'. heap w e = Some g \<and> m_fqp g \<noteq> lp \<and>
           last_write_time (disk w) (m_fqp g) = Some t' \<and> t' \<le> t0)"
      using Cons.prems(4) r by fastforce
    have tw: "total_weight (disk w) (filter (decodable ext) (r # rest))
        = unat sz + total_weight (disk w) (filter (decodable ext) rest)"
      using r True sz by (simp add: total_weight_def)
    with Cons.prems(5) have fits0: "current_weight w + unat sz \<le> unat (m_capacityLimit w)"
      by simp
    from add_fresh [OF ent0 sz t0 fits0, of ext] obtain w1 f2 where
      a: "add ext lp w = Inr (True, ?n, w1)"
      and h1: "heap w1 = (heap w)(?n \<mapsto> f2)" and p2: "m_fqp f2 = lp"
      and s2: "m_state f2 = m_state (File_ctor ext (garbage w ?n) lp)"
      and n1: "next_addr w1 = Suc ?n"
      and l1: "lru_entries w1 = lru_entries w @ [?n]"
      and c1: "current_weight w1 = current_weight w + unat sz"
      and d1: "disk w1 = disk w" and k1: "clock w1 = clock w"
      and m1: "m_capacityLimit w1 = m_capacityLimit w"
      by blast
    from True have "m_state (File_ctor ext (garbage w ?n) lp) = FILE_IS_AMORPHOUS"
      by (auto simp: File_ctor_def Let_def split: prod.splits)
    with s2 have am: "m_state f2 = FILE_IS_AMORPHOUS" by simp
    let ?f4 = "state_set (PTime (clock w1)) FILE_IS_IDLE f2"
    let ?w4 = "store_File ?n ?f4 w1"
    have s4: "m_state ?f4 = FILE_IS_IDLE"
      using am by (simp add: state_set_def notify_all_def Let_def)
    have p4: "m_fqp ?f4 = lp" using p2 by (simp add: m_fqp_state_set)
    have step: "populate ext (r # rest) w = populate ext rest ?w4"
      using r True a h1 by simp
    have h4n: "heap ?w4 ?n = Some ?f4" by (simp add: store_File_def)
    have h4o: "heap ?w4 e = heap w e" if "e \<in> set (lru_entries w)" for e
    proof -
      from Cons.prems(4) that have "e \<noteq> ?n" by auto
      then show ?thesis using h1 by (simp add: store_File_def)
    qed
    have d4: "disk ?w4 = disk w" using d1 by (simp add: store_File_def)
    have files4: "\<forall>(t, p) \<in> set rest.
        file_size (disk ?w4) p \<noteq> None \<and> last_write_time (disk ?w4) p = Some t"
      using files' d4 by simp
    have ent4: "\<forall>e \<in> set (lru_entries ?w4). e < next_addr ?w4 \<and>
        (\<exists>g t'. heap ?w4 e = Some g \<and> last_write_time (disk ?w4) (m_fqp g) = Some t' \<and>
           (\<forall>(t, p) \<in> set rest. t' \<le> t \<and> m_fqp g \<noteq> p))"
    proof
      fix e assume "e \<in> set (lru_entries ?w4)"
      then have "e \<in> set (lru_entries w) \<or> e = ?n" using l1 by (auto simp: store_File_def)
      then show "e < next_addr ?w4 \<and>
        (\<exists>g t'. heap ?w4 e = Some g \<and> last_write_time (disk ?w4) (m_fqp g) = Some t' \<and>
           (\<forall>(t, p) \<in> set rest. t' \<le> t \<and> m_fqp g \<noteq> p))"
      proof
        assume e: "e \<in> set (lru_entries w)"
        with Cons.prems(4) obtain g t' where g: "e < next_addr w" "heap w e = Some g"
          "last_write_time (disk w) (m_fqp g) = Some t'"
          "\<forall>(t, p) \<in> set (r # rest). t' \<le> t \<and> m_fqp g \<noteq> p"
          by blast
        from g(4) have "\<forall>(t, p) \<in> set rest. t' \<le> t \<and> m_fqp g \<noteq> p" by simp
        with g(1,2,3) h4o [OF e] d4 n1 show ?thesis
          by (auto simp: store_File_def)
      next
        assume e: "e = ?n"
        have "\<forall>(t, p) \<in> set rest. t0 \<le> t \<and> lp \<noteq> p"
          using Cons.prems(2,3) r by force
        with e h4n p4 t0 d4 n1 show ?thesis
          by (auto simp: store_File_def)
      qed
    qed
    have fits4: "current_weight ?w4 + total_weight (disk ?w4) (filter (decodable ext) rest)
        \<le> unat (m_capacityLimit ?w4)"
      using Cons.prems(5) tw c1 d1 m1 by (simp add: store_File_def)
    from Cons.IH [OF files4 srt' dst' ent4 fits4] obtain w' where
      w': "populate ext rest ?w4 = Inr w'" "disk w' = disk ?w4"
      "store_view w' = store_view ?w4 @
         map (\<lambda>(t, p). Some (p, FILE_IS_IDLE)) (filter (decodable ext) rest)"
      by blast
    have "map (\<lambda>e. map_option (\<lambda>f. (m_fqp f, m_state f)) (heap ?w4 e)) (lru_entries w)
        = map (\<lambda>e. map_option (\<lambda>f. (m_fqp f, m_state f)) (heap w e)) (lru_entries w)"
      using h4o by simp
    then have v4: "store_view ?w4 = store_view w @ [Some (lp, FILE_IS_IDLE)]"
      using l1 h4n s4 p4 by (simp add: store_view_def store_File_def)
    from w' v4 step d4 r True show ?thesis by simp
  qed
qed


lemma reload_populates:
  assumes root: "root \<noteq> []"
    and walk: "walk_resolves (disk w) root"
    and fits: "total_weight (disk w) (decodable_files ext (disk w) root) \<le> unat (m_capacityLimit w)"
  shows "\<exists>w'. reload ext root w = Inr (True, w') \<and> disk w' = disk w \<and>
     store_view w' = map (\<lambda>(t, p). Some (p, FILE_IS_IDLE)) (decodable_files ext (disk w) root)"
proof -
  let ?rs = "collect_result_set (disk w) root"
  define k where "k = (case ?rs of
      [] \<Rightarrow> past_the_end_key (reset (w\<lparr>m_root := root\<rparr>))
    | (t, lp) # rest \<Rightarrow> t)"
  let ?w2 = "(reset (w\<lparr>m_root := root\<rparr>))\<lparr>m_startTime := from_time_t k\<rparr>"
  have d2: "disk ?w2 = disk w" by (simp add: reset_def clear_def)
  from collect_result_set_props [OF walk]
  have props: "sorted (map fst ?rs)" "distinct (map snd ?rs)"
    "\<forall>(t, p) \<in> set ?rs. file_size (disk w) p \<noteq> None \<and> last_write_time (disk w) p = Some t"
    by blast+
  have files: "\<forall>(t, p) \<in> set ?rs.
      file_size (disk ?w2) p \<noteq> None \<and> last_write_time (disk ?w2) p = Some t"
    using props(3) d2 by simp
  have ent: "\<forall>e \<in> set (lru_entries ?w2). e < next_addr ?w2 \<and>
      (\<exists>g t'. heap ?w2 e = Some g \<and> last_write_time (disk ?w2) (m_fqp g) = Some t' \<and>
         (\<forall>(t, p) \<in> set ?rs. t' \<le> t \<and> m_fqp g \<noteq> p))"
    by (simp add: reset_def clear_def)
  have fits2: "current_weight ?w2 + total_weight (disk ?w2) (filter (decodable ext) ?rs)
      \<le> unat (m_capacityLimit ?w2)"
    using fits by (simp add: reset_def clear_def decodable_files_def)
  from populate_appends [OF files props(1,2) ent fits2] obtain w' where
    w': "populate ext ?rs ?w2 = Inr w'" "disk w' = disk ?w2"
    "store_view w' = store_view ?w2 @
       map (\<lambda>(t, p). Some (p, FILE_IS_IDLE)) (filter (decodable ext) ?rs)"
    by blast
  have "store_view ?w2 = []" by (simp add: store_view_def reset_def clear_def)
  with w' d2 have "disk w' = disk w"
    "store_view w' = map (\<lambda>(t, p). Some (p, FILE_IS_IDLE)) (decodable_files ext (disk w) root)"
    by (simp_all add: decodable_files_def)
  moreover have "reload ext root w = Inr (True, w')"
    using root w'(1) by (simp add: reload_def Let_def k_def)
  ultimately show ?thesis by blast
qed

text \<open>
  Without the proviso on the capacity. Every entry of the store is idle when \<open>reload\<close>
  admits the next file, so the eviction scan removes entries from the front, the oldest
  first, and the candidate goes to the end: the store is always an end piece of the
  list of decodable files.
\<close>

lemma map_of_filter_key:
  "map_of (filter (\<lambda>(q, e). q \<noteq> k) fs) x = (if x = k then None else map_of fs x)"
  by (induction fs) auto

lemma resolve_drop_file_other:
  assumes "canonical (m_fqp f) \<noteq> canonical p"
  shows "resolve (drop_file f fs) p = resolve fs p"
proof (cases "resolve fs (m_fqp f)")
  case None
  then show ?thesis by (simp add: drop_file_def)
next
  case (Some ke)
  obtain k e where ke: "ke = (k, e)" by (cases ke)
  with Some have k: "k = canonical (m_fqp f)"
    by (auto simp: resolve_def split: option.splits if_splits)
  with Some ke assms show ?thesis
    by (simp add: drop_file_def resolve_def map_of_filter_key)
qed

lemma deleteFile_resolve:
  assumes "deleteFile e p w = Inr (True, w1)" "heap w e = Some g"
    "canonical (m_fqp g) \<noteq> canonical q"
  shows "resolve (disk w1) q = resolve (disk w) q"
proof -
  let ?g1 = "state_set (PTime (clock w)) FILE_IS_MARKED_FOR_DELETION g"
  from assms(1,2) have "disk w1 = (if p then drop_file ?g1 (disk w) else disk w)"
    by (auto simp: deleteFile_def Let_def delete_File_def store_File_def split: if_splits)
  moreover have "canonical (m_fqp ?g1) \<noteq> canonical q"
    using assms(3) by (simp add: m_fqp_state_set)
  ultimately show ?thesis by (simp add: resolve_drop_file_other)
qed

lemma evict_front:
  assumes "lru_entries w = es" "distinct es"
    "\<forall>e \<in> set es. \<exists>g. heap w e = Some g \<and> isItemIdle g"
  shows "\<exists>w' n. evict ext need es w = Inr w' \<and> n \<le> length es \<and>
     lru_entries w' = drop n es \<and> next_addr w' = next_addr w \<and>
     (\<forall>a. a \<notin> set (take n es) \<longrightarrow> heap w' a = heap w a) \<and>
     (\<forall>q. (\<forall>e \<in> set (take n es). \<forall>g. heap w e = Some g \<longrightarrow> canonical (m_fqp g) \<noteq> canonical q)
          \<longrightarrow> resolve (disk w') q = resolve (disk w) q)"
  using assms
proof (induction es arbitrary: w)
  case Nil
  then show ?case by (intro exI [of _ w] exI [of _ 0]) simp
next
  case (Cons e es)
  show ?case
  proof (cases "current_weight w + need \<le> unat (getCapacity w)")
    case True
    then have "evict ext need (e # es) w = Inr w" by simp
    with Cons.prems(1) show ?thesis
      by (intro exI [of _ w] exI [of _ 0]) simp
  next
    case False
    from Cons.prems(3) obtain g where g: "heap w e = Some g" "isItemIdle g" by auto
    from deleteFile_idle [OF g, of "lru_evicts_physically ext"] obtain w1 where
      d: "deleteFile e (lru_evicts_physically ext) w = Inr (True, w1)"
      and h1: "heap w1 = (heap w)(e := None)"
      and l1: "lru_entries w1 = lru_entries w" and n1: "next_addr w1 = next_addr w"
      by blast
    let ?w2 = "w1\<lparr>lru_entries := removeAll e (lru_entries w1),
                  current_weight := current_weight w1 - unat (getWeight w (Some g))\<rparr>"
    have step: "evict ext need (e # es) w = evict ext need es ?w2"
      using False g d by simp
    from Cons.prems(2) have fresh: "e \<notin> set es" and dist: "distinct es" by simp_all
    have l2: "lru_entries ?w2 = es"
      using l1 Cons.prems(1) fresh by simp
    have h2: "heap ?w2 a = heap w a" if "a \<noteq> e" for a
      using h1 that by simp
    have idle2: "\<forall>a \<in> set es. \<exists>g. heap ?w2 a = Some g \<and> isItemIdle g"
    proof
      fix a assume a: "a \<in> set es"
      with fresh have "a \<noteq> e" by auto
      from h2 [OF this] Cons.prems(3) a show "\<exists>g. heap ?w2 a = Some g \<and> isItemIdle g"
        by simp
    qed
    from Cons.IH [OF l2 dist idle2] obtain w' n where
      r: "evict ext need es ?w2 = Inr w'" "n \<le> length es" "lru_entries w' = drop n es"
        "next_addr w' = next_addr ?w2"
        "\<And>a. a \<notin> set (take n es) \<Longrightarrow> heap w' a = heap ?w2 a"
        "\<And>q. (\<forall>e \<in> set (take n es). \<forall>g. heap ?w2 e = Some g \<longrightarrow>
                canonical (m_fqp g) \<noteq> canonical q) \<Longrightarrow>
             resolve (disk w') q = resolve (disk ?w2) q"
      by blast
    have heap': "heap w' a = heap w a" if "a \<notin> set (take (Suc n) (e # es))" for a
    proof -
      from that have "a \<noteq> e" "a \<notin> set (take n es)" by simp_all
      with r(5) [of a] h2 [of a] show ?thesis by simp
    qed
    have disk': "resolve (disk w') q = resolve (disk w) q"
      if q: "\<forall>a \<in> set (take (Suc n) (e # es)). \<forall>g. heap w a = Some g \<longrightarrow>
              canonical (m_fqp g) \<noteq> canonical q" for q
    proof -
      from q g(1) have ne: "canonical (m_fqp g) \<noteq> canonical q" by simp
      have "\<forall>a \<in> set (take n es). \<forall>g. heap ?w2 a = Some g \<longrightarrow>
              canonical (m_fqp g) \<noteq> canonical q"
      proof (intro ballI allI impI)
        fix a g' assume a: "a \<in> set (take n es)" and g': "heap ?w2 a = Some g'"
        from a have "a \<in> set es" by (rule in_set_takeD)
        with fresh have "a \<noteq> e" by auto
        with g' h2 [of a] have "heap w a = Some g'" by simp
        with q a show "canonical (m_fqp g') \<noteq> canonical q" by simp
      qed
      from r(6) [OF this] have "resolve (disk w') q = resolve (disk w1) q" by simp
      also from deleteFile_resolve [OF d g(1) ne] have "\<dots> = resolve (disk w) q" .
      finally show ?thesis .
    qed
    from step r(1,2,3,4) n1 heap' disk' show ?thesis
      by (intro exI [of _ w'] exI [of _ "Suc n"]) simp
  qed
qed


lemma add_general:
  assumes ent: "\<forall>e \<in> set (lru_entries w). e < next_addr w \<and>
        (\<exists>g t'. heap w e = Some g \<and> isItemIdle g \<and>
           canonical (m_fqp g) \<noteq> canonical lp \<and>
           last_write_time (disk w) (m_fqp g) = Some t' \<and> t' \<le> t0)"
    and dist: "distinct (lru_entries w)"
    and keys: "\<forall>e \<in> set (lru_entries w). \<forall>e' \<in> set (lru_entries w). e \<noteq> e' \<longrightarrow>
        (\<forall>g g'. heap w e = Some g \<longrightarrow> heap w e' = Some g' \<longrightarrow>
           canonical (m_fqp g) \<noteq> canonical (m_fqp g'))"
    and sz: "file_size (disk w) lp = Some sz"
    and t0: "last_write_time (disk w) lp = Some t0"
  shows "\<exists>w' f2 n. add ext lp w = Inr (True, next_addr w, w') \<and>
      n \<le> length (lru_entries w) \<and>
      lru_entries w' = drop n (lru_entries w) @ [next_addr w] \<and>
      heap w' (next_addr w) = Some f2 \<and> m_fqp f2 = lp \<and>
      m_state f2 = m_state (File_ctor ext (garbage w (next_addr w)) lp) \<and>
      next_addr w' = Suc (next_addr w) \<and>
      (\<forall>a \<in> set (drop n (lru_entries w)). heap w' a = heap w a) \<and>
      (\<forall>q. (\<forall>e \<in> set (take n (lru_entries w)). \<forall>g. heap w e = Some g \<longrightarrow>
               canonical (m_fqp g) \<noteq> canonical q)
           \<longrightarrow> resolve (disk w') q = resolve (disk w) q)"
proof -
  let ?n = "next_addr w"
  let ?es = "lru_entries w"
  let ?f0 = "File_ctor ext (garbage w ?n) lp"
  let ?wa = "w\<lparr>heap := (heap w)(?n \<mapsto> ?f0), next_addr := Suc ?n\<rparr>"
  let ?f2 = "snd (estimated_size_set sz ?f0)"
  let ?w2 = "store_File ?n ?f2 ?wa"
  have path2: "m_fqp ?f2 = lp"
    by (simp add: m_fqp_estimated_size_set m_fqp_File_ctor)
  have h2: "heap ?w2 ?n = Some ?f2" by (simp add: store_File_def)
  have fresh: "?n \<notin> set ?es" using ent by auto
  have old: "heap ?w2 e = heap w e" if "e \<noteq> ?n" for e
    using that by (simp add: store_File_def)
  have "\<not> (case heap ?w2 e of Some g \<Rightarrow> m_fqp g = lp | None \<Rightarrow> False)"
    if "e \<in> set ?es" for e
  proof -
    from ent that obtain g where "heap w e = Some g" "canonical (m_fqp g) \<noteq> canonical lp"
      by blast
    moreover from that fresh have "e \<noteq> ?n" by auto
    ultimately show ?thesis using old [of e] by auto
  qed
  then have nf: "lru_find ?w2 lp = None"
    by (simp add: lru_find_def find_None_iff store_File_def)
  have wt: "getWeight ?w2 (Some ?f2) = sz"
    using sz path2 by (simp add: getWeight_def size_of_file_def store_File_def)
  have le: "lru_entries ?w2 = ?es" by (simp add: store_File_def)
  have d2: "disk ?w2 = disk w" by (simp add: store_File_def)
  have n2: "next_addr ?w2 = Suc ?n" by (simp add: store_File_def)
  have idle2: "\<forall>e \<in> set ?es. \<exists>g. heap ?w2 e = Some g \<and> isItemIdle g"
  proof
    fix e assume e: "e \<in> set ?es"
    with fresh have "e \<noteq> ?n" by auto
    from old [OF this] ent e show "\<exists>g. heap ?w2 e = Some g \<and> isItemIdle g" by auto
  qed
  from evict_front [OF le dist idle2, of ext "unat sz"] obtain w1 n where
    ev: "evict ext (unat sz) ?es ?w2 = Inr w1" and n: "n \<le> length ?es"
    and l1: "lru_entries w1 = drop n ?es" and n1: "next_addr w1 = next_addr ?w2"
    and h1: "\<And>a. a \<notin> set (take n ?es) \<Longrightarrow> heap w1 a = heap ?w2 a"
    and r1: "\<And>q. (\<forall>e \<in> set (take n ?es). \<forall>g. heap ?w2 e = Some g \<longrightarrow>
                canonical (m_fqp g) \<noteq> canonical q) \<Longrightarrow>
             resolve (disk w1) q = resolve (disk ?w2) q"
    by blast
  have r1': "resolve (disk w1) q = resolve (disk w) q"
    if "\<forall>e \<in> set (take n ?es). \<forall>g. heap w e = Some g \<longrightarrow> canonical (m_fqp g) \<noteq> canonical q"
    for q
  proof -
    have "\<forall>e \<in> set (take n ?es). \<forall>g. heap ?w2 e = Some g \<longrightarrow>
              canonical (m_fqp g) \<noteq> canonical q"
    proof (intro ballI allI impI)
      fix e g assume e: "e \<in> set (take n ?es)" and g: "heap ?w2 e = Some g"
      from e have "e \<in> set ?es" by (rule in_set_takeD)
      with fresh have "e \<noteq> ?n" by auto
      with g old [of e] have "heap w e = Some g" by simp
      with that e show "canonical (m_fqp g) \<noteq> canonical q" by blast
    qed
    from r1 [OF this] d2 show ?thesis by simp
  qed
  have split: "set ?es = set (take n ?es) \<union> set (drop n ?es)"
    by (metis append_take_drop_id set_append)
  have disj: "set (take n ?es) \<inter> set (drop n ?es) = {}"
    using dist by (metis append_take_drop_id distinct_append)
  have kept: "heap w1 a = heap w a" if "a \<in> set (drop n ?es)" for a
  proof -
    from that disj have "a \<notin> set (take n ?es)" by auto
    moreover from that split fresh have "a \<noteq> ?n" by auto
    ultimately show ?thesis using h1 [of a] old [of a] by simp
  qed
  have new1: "heap w1 ?n = Some ?f2"
  proof -
    from fresh have "?n \<notin> set (take n ?es)" by (auto dest: in_set_takeD)
    from h1 [OF this] h2 show ?thesis by simp
  qed
  have lp1: "resolve (disk w1) lp = resolve (disk w) lp"
  proof (rule r1', intro ballI allI impI)
    fix e g assume e: "e \<in> set (take n ?es)" and g: "heap w e = Some g"
    from e have "e \<in> set ?es" by (rule in_set_takeD)
    with ent g show "canonical (m_fqp g) \<noteq> canonical lp" by auto
  qed
  from t0 lp1 have "last_write_time (disk w1) lp = Some t0"
    by (simp add: last_write_time_def)
  then have ts1: "getTimestamp w1 ?f2 = from_time_t t0"
    using path2 by (simp add: getTimestamp_def last_access_def)
  have "\<exists>g. heap w1 a = Some g \<and> \<not> ptime_less (from_time_t t0) (getTimestamp w1 g)"
    if a: "a \<in> set (drop n ?es)" for a
  proof -
    from a split have a': "a \<in> set ?es" by auto
    with ent obtain g t' where g: "heap w a = Some g"
      "last_write_time (disk w) (m_fqp g) = Some t'" "t' \<le> t0" by blast
    have "resolve (disk w1) (m_fqp g) = resolve (disk w) (m_fqp g)"
    proof (rule r1', intro ballI allI impI)
      fix e g' assume e: "e \<in> set (take n ?es)" and g': "heap w e = Some g'"
      from e have e': "e \<in> set ?es" by (rule in_set_takeD)
      from e a disj have "e \<noteq> a" by auto
      with keys e' a' g' g(1) show "canonical (m_fqp g') \<noteq> canonical (m_fqp g)" by blast
    qed
    with g(2) have "last_write_time (disk w1) (m_fqp g) = Some t'"
      by (simp add: last_write_time_def)
    with g(3) have "\<not> ptime_less (from_time_t t0) (getTimestamp w1 g)"
      by (simp add: getTimestamp_def last_access_def from_time_t_def ptime_less_def)
    with g(1) kept [OF a] show ?thesis by simp
  qed
  then have ins: "insert_by_timestamp w1 (from_time_t t0) ?n (drop n ?es)
      = Inr (drop n ?es @ [?n])"
    by (intro insert_by_timestamp_last) blast
  let ?w3 = "w1\<lparr>lru_entries := drop n ?es @ [?n],
                 current_weight := current_weight w1 + unat sz\<rparr>"
  have la: "LRUCache_add ext ?n ?w2 = Inr (True, False, ?n, ?w3)"
    unfolding LRUCache_add_def using h2 nf wt ev ts1 ins le l1 path2
    by simp
  have fs: "file_size (disk ?wa) lp = Some sz" using sz by simp
  have "add ext lp w = Inr (True, ?n, ?w3)"
    unfolding add_def new_File_def Let_def using fs la by simp
  moreover have "m_state ?f2 = m_state ?f0"
    by (simp add: m_state_estimated_size_set)
  ultimately show ?thesis using path2 n new1 kept r1' n1 n2
    by (intro exI [of _ ?w3] exI [of _ ?f2] exI [of _ n]) simp
qed


lemma populate_general:
  assumes inj: "inj_on canonical S"
    and sub: "snd ` set rest \<subseteq> S"
    and files: "\<forall>(t, p) \<in> set rest.
        file_size (disk w) p \<noteq> None \<and> last_write_time (disk w) p = Some t"
    and srt: "sorted (map fst rest)"
    and dst: "distinct (map snd rest)"
    and dist: "distinct (lru_entries w)"
    and ent: "\<forall>e \<in> set (lru_entries w). e < next_addr w \<and>
        (\<exists>g t'. heap w e = Some g \<and> isItemIdle g \<and> m_fqp g \<in> S \<and>
           last_write_time (disk w) (m_fqp g) = Some t' \<and>
           (\<forall>(t, p) \<in> set rest. t' \<le> t \<and> m_fqp g \<noteq> p))"
    and paths: "\<forall>e \<in> set (lru_entries w). \<forall>e' \<in> set (lru_entries w). e \<noteq> e' \<longrightarrow>
        (\<forall>g g'. heap w e = Some g \<longrightarrow> heap w e' = Some g' \<longrightarrow> m_fqp g \<noteq> m_fqp g')"
  shows "\<exists>w' n. populate ext rest w = Inr w' \<and>
      store_view w' = drop n (store_view w @
        map (\<lambda>(t, p). Some (p, FILE_IS_IDLE)) (filter (decodable ext) rest)) \<and>
      (filter (decodable ext) rest = [] \<longrightarrow> n = 0) \<and>
      (filter (decodable ext) rest \<noteq> [] \<longrightarrow>
         n < length (store_view w) + length (filter (decodable ext) rest))"
  using assms
proof (induction rest arbitrary: w)
  case Nil
  show ?case by (intro exI [of _ w] exI [of _ 0]) simp
next
  case (Cons r rest)
  obtain t0 lp where r: "r = (t0, lp)" by (cases r)
  note inj = Cons.prems(1)
  have sub': "snd ` set rest \<subseteq> S" using Cons.prems(2) by auto
  have lpS: "lp \<in> S" using Cons.prems(2) r by auto
  have files': "\<forall>(t, p) \<in> set rest.
        file_size (disk w) p \<noteq> None \<and> last_write_time (disk w) p = Some t"
    using Cons.prems(3) by simp
  have srt': "sorted (map fst rest)" using Cons.prems(4) by simp
  have dst': "distinct (map snd rest)" using Cons.prems(5) by simp
  note dist = Cons.prems(6)
  note ent = Cons.prems(7)
  note paths = Cons.prems(8)
  show ?case
  proof (cases "valid (fst (restoreNetworkPathFromLocal ext lp))")
    case False
    have ent': "\<forall>e \<in> set (lru_entries w). e < next_addr w \<and>
        (\<exists>g t'. heap w e = Some g \<and> isItemIdle g \<and> m_fqp g \<in> S \<and>
           last_write_time (disk w) (m_fqp g) = Some t' \<and>
           (\<forall>(t, p) \<in> set rest. t' \<le> t \<and> m_fqp g \<noteq> p))"
      using ent by fastforce
    from Cons.IH [OF inj sub' files' srt' dst' dist ent' paths] r False show ?thesis by simp
  next
    case True
    let ?n = "next_addr w"
    let ?es = "lru_entries w"
    from Cons.prems(3) r obtain sz where sz: "file_size (disk w) lp = Some sz"
      and t0: "last_write_time (disk w) lp = Some t0"
      by auto
    have entD: "\<exists>g t'. e < ?n \<and> heap w e = Some g \<and> isItemIdle g \<and> m_fqp g \<in> S \<and>
        last_write_time (disk w) (m_fqp g) = Some t' \<and> t' \<le> t0 \<and> m_fqp g \<noteq> lp \<and>
        (\<forall>(t, p) \<in> set rest. t' \<le> t \<and> m_fqp g \<noteq> p)"
      if "e \<in> set ?es" for e
      using ent that r by fastforce
    have ent0: "\<forall>e \<in> set ?es. e < next_addr w \<and>
        (\<exists>g t'. heap w e = Some g \<and> isItemIdle g \<and>
           canonical (m_fqp g) \<noteq> canonical lp \<and>
           last_write_time (disk w) (m_fqp g) = Some t' \<and> t' \<le> t0)"
    proof
      fix e assume "e \<in> set ?es"
      from entD [OF this] obtain g t' where g: "e < ?n" "heap w e = Some g" "isItemIdle g"
        "m_fqp g \<in> S" "last_write_time (disk w) (m_fqp g) = Some t'" "t' \<le> t0"
        "m_fqp g \<noteq> lp" by blast
      from inj g(4,7) lpS have "canonical (m_fqp g) \<noteq> canonical lp"
        by (auto dest: inj_onD)
      with g show "e < next_addr w \<and>
        (\<exists>g t'. heap w e = Some g \<and> isItemIdle g \<and>
           canonical (m_fqp g) \<noteq> canonical lp \<and>
           last_write_time (disk w) (m_fqp g) = Some t' \<and> t' \<le> t0)" by blast
    qed
    have keys: "\<forall>e \<in> set ?es. \<forall>e' \<in> set ?es. e \<noteq> e' \<longrightarrow>
        (\<forall>g g'. heap w e = Some g \<longrightarrow> heap w e' = Some g' \<longrightarrow>
           canonical (m_fqp g) \<noteq> canonical (m_fqp g'))"
    proof (intro ballI allI impI)
      fix e e' g g' assume e: "e \<in> set ?es" "e' \<in> set ?es" "e \<noteq> e'"
        and g: "heap w e = Some g" "heap w e' = Some g'"
      from paths e g have ne: "m_fqp g \<noteq> m_fqp g'" by blast
      from entD [OF e(1)] g(1) have "m_fqp g \<in> S" by auto
      moreover from entD [OF e(2)] g(2) have "m_fqp g' \<in> S" by auto
      ultimately show "canonical (m_fqp g) \<noteq> canonical (m_fqp g')"
        using inj ne by (auto dest: inj_onD)
    qed
    from add_general [OF ent0 dist keys sz t0, of ext] obtain w1 f2 n where
      a: "add ext lp w = Inr (True, ?n, w1)"
      and n: "n \<le> length ?es"
      and l1: "lru_entries w1 = drop n ?es @ [?n]"
      and h1: "heap w1 ?n = Some f2" and p2: "m_fqp f2 = lp"
      and s2: "m_state f2 = m_state (File_ctor ext (garbage w ?n) lp)"
      and n1: "next_addr w1 = Suc ?n"
      and k1: "\<And>a. a \<in> set (drop n ?es) \<Longrightarrow> heap w1 a = heap w a"
      and r1: "\<And>q. (\<forall>e \<in> set (take n ?es). \<forall>g. heap w e = Some g \<longrightarrow>
               canonical (m_fqp g) \<noteq> canonical q) \<Longrightarrow>
             resolve (disk w1) q = resolve (disk w) q"
      by blast
    from True have "m_state (File_ctor ext (garbage w ?n) lp) = FILE_IS_AMORPHOUS"
      by (auto simp: File_ctor_def Let_def split: prod.splits)
    with s2 have am: "m_state f2 = FILE_IS_AMORPHOUS" by simp
    let ?f4 = "state_set (PTime (clock w1)) FILE_IS_IDLE f2"
    let ?w4 = "store_File ?n ?f4 w1"
    have s4: "m_state ?f4 = FILE_IS_IDLE"
      using am by (simp add: state_set_def notify_all_def Let_def)
    have p4: "m_fqp ?f4 = lp" using p2 by (simp add: m_fqp_state_set)
    have step: "populate ext (r # rest) w = populate ext rest ?w4"
      using r True a h1 by simp
    have fresh: "?n \<notin> set ?es" using ent by auto
    have split: "set ?es = set (take n ?es) \<union> set (drop n ?es)"
      by (metis append_take_drop_id set_append)
    have disj: "set (take n ?es) \<inter> set (drop n ?es) = {}"
      using dist by (metis append_take_drop_id distinct_append)
    have h4n: "heap ?w4 ?n = Some ?f4" by (simp add: store_File_def)
    have h4o: "heap ?w4 e = heap w e" if "e \<in> set (drop n ?es)" for e
    proof -
      from that split fresh have "e \<noteq> ?n" by auto
      then show ?thesis using k1 [OF that] by (simp add: store_File_def)
    qed
    have d4: "disk ?w4 = disk w1" by (simp add: store_File_def)
    have res_rest: "resolve (disk ?w4) p = resolve (disk w) p"
      if "p \<in> S" "\<forall>e \<in> set (take n ?es). \<forall>g. heap w e = Some g \<longrightarrow> m_fqp g \<noteq> p" for p
    proof -
      have "\<forall>e \<in> set (take n ?es). \<forall>g. heap w e = Some g \<longrightarrow>
               canonical (m_fqp g) \<noteq> canonical p"
      proof (intro ballI allI impI)
        fix e g assume e: "e \<in> set (take n ?es)" and g: "heap w e = Some g"
        from e have "e \<in> set ?es" by (rule in_set_takeD)
        from entD [OF this] g have "m_fqp g \<in> S" by auto
        moreover from that(2) e g have "m_fqp g \<noteq> p" by blast
        ultimately show "canonical (m_fqp g) \<noteq> canonical p"
          using inj that(1) by (auto dest: inj_onD)
      qed
      from r1 [OF this] d4 show ?thesis by simp
    qed
    have files4: "\<forall>(t, p) \<in> set rest.
        file_size (disk ?w4) p \<noteq> None \<and> last_write_time (disk ?w4) p = Some t"
    proof (intro ballI, clarify)
      fix t p assume tp: "(t, p) \<in> set rest"
      then have pS: "p \<in> S" using sub' by force
      have "\<forall>e \<in> set (take n ?es). \<forall>g. heap w e = Some g \<longrightarrow> m_fqp g \<noteq> p"
      proof (intro ballI allI impI)
        fix e g assume e: "e \<in> set (take n ?es)" and g: "heap w e = Some g"
        from e have "e \<in> set ?es" by (rule in_set_takeD)
        from entD [OF this] g tp show "m_fqp g \<noteq> p" by auto
      qed
      from res_rest [OF pS this] files' tp
      show "file_size (disk ?w4) p \<noteq> None \<and> last_write_time (disk ?w4) p = Some t"
        by (auto simp: file_size_def last_write_time_def)
    qed
    have lp4: "last_write_time (disk ?w4) lp = Some t0"
    proof -
      have "\<forall>e \<in> set (take n ?es). \<forall>g. heap w e = Some g \<longrightarrow> m_fqp g \<noteq> lp"
      proof (intro ballI allI impI)
        fix e g assume e: "e \<in> set (take n ?es)" and g: "heap w e = Some g"
        from e have "e \<in> set ?es" by (rule in_set_takeD)
        from entD [OF this] g show "m_fqp g \<noteq> lp" by auto
      qed
      from res_rest [OF lpS this] t0 show ?thesis by (simp add: last_write_time_def)
    qed
    have l4: "lru_entries ?w4 = drop n ?es @ [?n]" using l1 by (simp add: store_File_def)
    have dist4: "distinct (lru_entries ?w4)"
      using dist fresh l4 by (auto dest: in_set_dropD)
    have new_rest: "\<forall>(t, p) \<in> set rest. t0 \<le> t \<and> lp \<noteq> p"
      using Cons.prems(4,5) r by force
    have ent4: "\<forall>e \<in> set (lru_entries ?w4). e < next_addr ?w4 \<and>
        (\<exists>g t'. heap ?w4 e = Some g \<and> isItemIdle g \<and> m_fqp g \<in> S \<and>
           last_write_time (disk ?w4) (m_fqp g) = Some t' \<and>
           (\<forall>(t, p) \<in> set rest. t' \<le> t \<and> m_fqp g \<noteq> p))"
    proof
      fix e assume "e \<in> set (lru_entries ?w4)"
      then have "e \<in> set (drop n ?es) \<or> e = ?n" using l4 by auto
      then show "e < next_addr ?w4 \<and>
        (\<exists>g t'. heap ?w4 e = Some g \<and> isItemIdle g \<and> m_fqp g \<in> S \<and>
           last_write_time (disk ?w4) (m_fqp g) = Some t' \<and>
           (\<forall>(t, p) \<in> set rest. t' \<le> t \<and> m_fqp g \<noteq> p))"
      proof
        assume e: "e \<in> set (drop n ?es)"
        then have e': "e \<in> set ?es" by (rule in_set_dropD)
        from entD [OF e'] obtain g t' where g: "e < ?n" "heap w e = Some g" "isItemIdle g"
          "m_fqp g \<in> S" "last_write_time (disk w) (m_fqp g) = Some t'"
          "\<forall>(t, p) \<in> set rest. t' \<le> t \<and> m_fqp g \<noteq> p"
          by blast
        have "\<forall>a \<in> set (take n ?es). \<forall>g'. heap w a = Some g' \<longrightarrow> m_fqp g' \<noteq> m_fqp g"
        proof (intro ballI allI impI)
          fix a g' assume a: "a \<in> set (take n ?es)" and g': "heap w a = Some g'"
          from a have a': "a \<in> set ?es" by (rule in_set_takeD)
          from a e disj have "a \<noteq> e" by auto
          with paths a' e' g' g(2) show "m_fqp g' \<noteq> m_fqp g" by blast
        qed
        from res_rest [OF g(4) this] g(5)
        have "last_write_time (disk ?w4) (m_fqp g) = Some t'"
          by (simp add: last_write_time_def)
        with g h4o [OF e] n1 show ?thesis
          by (auto simp: store_File_def)
      next
        assume e: "e = ?n"
        have "isItemIdle ?f4" using s4 by (simp add: isItemIdle_def state_def)
        with e h4n p4 lp4 lpS new_rest n1 show ?thesis
          by (auto simp: store_File_def)
      qed
    qed
    have paths4: "\<forall>e \<in> set (lru_entries ?w4). \<forall>e' \<in> set (lru_entries ?w4). e \<noteq> e' \<longrightarrow>
        (\<forall>g g'. heap ?w4 e = Some g \<longrightarrow> heap ?w4 e' = Some g' \<longrightarrow> m_fqp g \<noteq> m_fqp g')"
    proof (intro ballI allI impI)
      fix e e' g g' assume e: "e \<in> set (lru_entries ?w4)" "e' \<in> set (lru_entries ?w4)"
        "e \<noteq> e'" and g: "heap ?w4 e = Some g" "heap ?w4 e' = Some g'"
      have old_new: "m_fqp x \<noteq> lp" if "a \<in> set (drop n ?es)" "heap ?w4 a = Some x" for a x
      proof -
        from that(1) have "a \<in> set ?es" by (rule in_set_dropD)
        from entD [OF this] h4o [OF that(1)] that(2) show ?thesis by auto
      qed
      from e(1,2) l4 have "e \<in> set (drop n ?es) \<or> e = ?n" "e' \<in> set (drop n ?es) \<or> e' = ?n"
        by auto
      then consider "e \<in> set (drop n ?es)" "e' \<in> set (drop n ?es)"
        | "e \<in> set (drop n ?es)" "e' = ?n" | "e = ?n" "e' \<in> set (drop n ?es)"
        using e(3) by blast
      then show "m_fqp g \<noteq> m_fqp g'"
      proof cases
        case 1
        with g h4o have "heap w e = Some g" "heap w e' = Some g'" by simp_all
        moreover from 1 have "e \<in> set ?es" "e' \<in> set ?es" by (auto dest: in_set_dropD)
        ultimately show ?thesis using paths e(3) by blast
      next
        case 2
        with g(2) h4n p4 have "m_fqp g' = lp" by simp
        with old_new [OF 2(1) g(1)] show ?thesis by simp
      next
        case 3
        with g(1) h4n p4 have "m_fqp g = lp" by simp
        with old_new [OF 3(2) g(2)] show ?thesis by simp
      qed
    qed
    from Cons.IH [OF inj sub' files4 srt' dst' dist4 ent4 paths4] obtain w' n' where
      w': "populate ext rest ?w4 = Inr w'"
      "store_view w' = drop n' (store_view ?w4 @
         map (\<lambda>(t, p). Some (p, FILE_IS_IDLE)) (filter (decodable ext) rest))"
      "filter (decodable ext) rest = [] \<longrightarrow> n' = 0"
      "filter (decodable ext) rest \<noteq> [] \<longrightarrow>
         n' < length (store_view ?w4) + length (filter (decodable ext) rest)"
      by blast
    let ?v = "\<lambda>h e. map_option (\<lambda>f. (m_fqp f, m_state f)) (h e)"
    have "map (?v (heap ?w4)) (drop n ?es) = map (?v (heap w)) (drop n ?es)"
      using h4o by simp
    then have v4: "store_view ?w4 = drop n (store_view w) @ [Some (lp, FILE_IS_IDLE)]"
      using l4 h4n s4 p4 by (simp add: store_view_def drop_map)
    let ?new = "map (\<lambda>(t, p). Some (p, FILE_IS_IDLE)) (filter (decodable ext) rest)"
    have len: "n \<le> length (store_view w)" using n by (simp add: store_view_def)
    let ?all = "store_view w @ Some (lp, FILE_IS_IDLE) # ?new"
    have eq: "store_view ?w4 @ ?new = drop n ?all"
      using v4 len by simp
    have "store_view w' = drop n' (drop n ?all)"
      unfolding w'(2) eq ..
    then have m: "store_view w' = drop (n' + n) ?all"
      by (metis drop_drop add.commute)
    have all: "store_view w @
        map (\<lambda>(t, p). Some (p, FILE_IS_IDLE)) (filter (decodable ext) (r # rest)) = ?all"
      using r True by simp
    have l4v: "length (store_view ?w4) = length (store_view w) - n + 1"
      using v4 by simp
    have bound: "n' + n < length (store_view w) + length (filter (decodable ext) (r # rest))"
    proof (cases "filter (decodable ext) rest = []")
      case True
      with w'(3) have "n' = 0" by simp
      with len show ?thesis using r \<open>valid (fst (restoreNetworkPathFromLocal ext lp))\<close> by simp
    next
      case False
      with w'(4) have "n' < length (store_view ?w4) + length (filter (decodable ext) rest)"
        by simp
      with l4v len show ?thesis using r \<open>valid (fst (restoreNetworkPathFromLocal ext lp))\<close>
        by simp
    qed
    have some: "filter (decodable ext) (r # rest) \<noteq> []"
      using r True by simp
    from w'(1) step have "populate ext (r # rest) w = Inr w'" by simp
    with m all bound some show ?thesis
      by (intro exI [of _ w'] exI [of _ "n' + n"]) simp
  qed
qed


lemma reload_general:
  assumes root: "root \<noteq> []"
    and walk: "walk_resolves (disk w) root"
  shows "\<exists>w' n. reload ext root w = Inr (True, w') \<and>
     store_view w' = map (\<lambda>(t, p). Some (p, FILE_IS_IDLE))
                       (drop n (decodable_files ext (disk w) root)) \<and>
     (decodable_files ext (disk w) root \<noteq> [] \<longrightarrow>
        n < length (decodable_files ext (disk w) root))"
proof -
  let ?rs = "collect_result_set (disk w) root"
  let ?S = "fst ` set (recursive_directory_iterator (disk w) root)"
  define k where "k = (case ?rs of
      [] \<Rightarrow> past_the_end_key (reset (w\<lparr>m_root := root\<rparr>))
    | (t, lp) # rest \<Rightarrow> t)"
  let ?w2 = "(reset (w\<lparr>m_root := root\<rparr>))\<lparr>m_startTime := from_time_t k\<rparr>"
  have d2: "disk ?w2 = disk w" by (simp add: reset_def clear_def)
  have e2: "lru_entries ?w2 = []" by (simp add: reset_def clear_def)
  from collect_result_set_props [OF walk]
  have props: "sorted (map fst ?rs)" "distinct (map snd ?rs)"
    "\<forall>(t, p) \<in> set ?rs. file_size (disk w) p \<noteq> None \<and> last_write_time (disk w) p = Some t"
    by blast+
  from walk_resolves_paths [OF walk] have inj: "inj_on canonical ?S" by simp
  have sub: "snd ` set ?rs \<subseteq> ?S"
    by (force simp: set_collect_result_set)
  have files: "\<forall>(t, p) \<in> set ?rs.
      file_size (disk ?w2) p \<noteq> None \<and> last_write_time (disk ?w2) p = Some t"
    using props(3) d2 by simp
  have dist: "distinct (lru_entries ?w2)" using e2 by simp
  have ent: "\<forall>e \<in> set (lru_entries ?w2). e < next_addr ?w2 \<and>
      (\<exists>g t'. heap ?w2 e = Some g \<and> isItemIdle g \<and> m_fqp g \<in> ?S \<and>
         last_write_time (disk ?w2) (m_fqp g) = Some t' \<and>
         (\<forall>(t, p) \<in> set ?rs. t' \<le> t \<and> m_fqp g \<noteq> p))"
    using e2 by simp
  have paths: "\<forall>e \<in> set (lru_entries ?w2). \<forall>e' \<in> set (lru_entries ?w2). e \<noteq> e' \<longrightarrow>
      (\<forall>g g'. heap ?w2 e = Some g \<longrightarrow> heap ?w2 e' = Some g' \<longrightarrow> m_fqp g \<noteq> m_fqp g')"
    using e2 by simp
  from populate_general [OF inj sub files props(1,2) dist ent paths, of ext] obtain w' n where
    w': "populate ext ?rs ?w2 = Inr w'"
    "store_view w' = drop n (store_view ?w2 @
       map (\<lambda>(t, p). Some (p, FILE_IS_IDLE)) (filter (decodable ext) ?rs))"
    "filter (decodable ext) ?rs \<noteq> [] \<longrightarrow>
       n < length (store_view ?w2) + length (filter (decodable ext) ?rs)"
    by blast
  have v2: "store_view ?w2 = []" using e2 by (simp add: store_view_def)
  with w'(2) have "store_view w' = map (\<lambda>(t, p). Some (p, FILE_IS_IDLE))
                       (drop n (decodable_files ext (disk w) root))"
    by (simp add: decodable_files_def drop_map)
  moreover have "reload ext root w = Inr (True, w')"
    using root w'(1) by (simp add: reload_def Let_def k_def)
  moreover have "decodable_files ext (disk w) root \<noteq> [] \<longrightarrow>
        n < length (decodable_files ext (disk w) root)"
    using w'(3) v2 by (simp add: decodable_files_def)
  ultimately show ?thesis by blast
qed

lemma reload_empty_root: "reload ext [] w = Inr (False, w)"
  by (simp add: reload_def)

text \<open>
  A root under which the traversal finds no regular file: the store is cleared, the loop
  over the collection is not entered, the start time is whatever the past-the-end position
  of the collection holds, and \<open>reload\<close> returns true.
\<close>

lemma reload_without_regular_file:
  "root \<noteq> [] \<Longrightarrow> collect_result_set (disk w) root = [] \<Longrightarrow>
     reload ext root w =
       Inr (True, (reset (w\<lparr>m_root := root\<rparr>))
                    \<lparr>m_startTime := from_time_t (past_the_end_key w)\<rparr>)"
  by (simp add: reload_def Let_def reset_def clear_def)

lemma sample_walk_resolves:
  "walk_resolves sample_disk ''/r/''" "walk_resolves sample_disk ''/r''"
  "walk_resolves sample_disk ''/empty''"
  by (simp_all add: walk_resolves_def sample_defs disk_defs)

lemma sample_decodable_files:
  "decodable_files sample_ext sample_disk ''/r/''
     = [(10, ''/r/hdfs/nn_8020/a''), (20, ''/r/hdfs/nn_8020/b'')]"
  "decodable_files sample_ext sample_disk ''/r''
     = [(10, ''/r/hdfs/nn_8020/a''), (20, ''/r/hdfs/nn_8020/b'')]"
  "decodable_files sample_ext sample_disk ''/empty'' = []"
  by (simp_all add: decodable_files_def sample_defs disk_defs)

text \<open>
  C5, as amended. \<open>reload\<close> returns false, and changes nothing, for an empty root.
  For any other root, on a disk that is sound for its traversal, it clears the store and
  returns true, and the store then holds IDLE entries, in the order of their last write
  times, for the youngest of the decodable regular files below the root. Every
  admission goes through the eviction of \<open>LRUCache::add\<close>, which removes the oldest
  entries when the capacity would be exceeded, so the entries of the \<open>n\<close> oldest
  decodable files are missing, for some \<open>n\<close>: the youngest file always has its entry, and
  when the decodable files together fit the capacity none is missing and the disk is as
  before. After any reload that returned true the store holds no entry for a file that
  does not decode. The decodable files are the regular files of the recursive traversal
  of an existing directory (none otherwise, so that a missing root, a root that is no
  directory and a directory without regular files all give true and an empty store)
  whose local path decodes to a valid descriptor, in ascending order of their last write
  times.
\<close>

theorem reload_admits_youngest_decodable_files:
  "reload ext [] w = Inr (False, w) \<and>
   (root \<noteq> [] \<and> walk_resolves (disk w) root \<longrightarrow>
      (\<exists>w' n. reload ext root w = Inr (True, w') \<and>
         store_view w' =
           map (\<lambda>(t, p). Some (p, FILE_IS_IDLE))
             (drop n (decodable_files ext (disk w) root)) \<and>
         (decodable_files ext (disk w) root \<noteq> [] \<longrightarrow>
            n < length (decodable_files ext (disk w) root)) \<and>
         (total_weight (disk w) (decodable_files ext (disk w) root)
            \<le> unat (m_capacityLimit w) \<longrightarrow> n = 0 \<and> disk w' = disk w))) \<and>
   (\<forall>v. reload ext root w = Inr (True, v) \<longrightarrow> store_decodable ext v) \<and>
   sorted (map fst (decodable_files ext (disk w) root)) \<and>
   ((t, p) \<in> set (decodable_files ext (disk w) root) \<longleftrightarrow>
      fs_exists (disk w) root \<and> is_directory (disk w) root \<and>
      valid (fst (restoreNetworkPathFromLocal ext p)) \<and>
      (\<exists>e. (p, e) \<in> set (recursive_directory_iterator (disk w) root) \<and>
           ftype e = regular_file \<and> mtime e = t))"
proof -
  let ?D = "decodable_files ext (disk w) root"
  let ?fits = "total_weight (disk w) ?D \<le> unat (m_capacityLimit w)"
  have empty: "reload ext [] w = Inr (False, w)" by (simp add: reload_def)
  have populated: "\<exists>w' n. reload ext root w = Inr (True, w') \<and>
      store_view w' = map (\<lambda>(t, p). Some (p, FILE_IS_IDLE)) (drop n ?D) \<and>
      (?D \<noteq> [] \<longrightarrow> n < length ?D) \<and> (?fits \<longrightarrow> n = 0 \<and> disk w' = disk w)"
    if root: "root \<noteq> []" and walk: "walk_resolves (disk w) root"
  proof (cases ?fits)
    case True
    from reload_populates [OF root walk True] obtain w' where
      w': "reload ext root w = Inr (True, w')" "disk w' = disk w"
        "store_view w' = map (\<lambda>(t, p). Some (p, FILE_IS_IDLE)) ?D"
      by blast
    from w'(3) have "store_view w' = map (\<lambda>(t, p). Some (p, FILE_IS_IDLE)) (drop 0 ?D)"
      by simp
    moreover have "?D \<noteq> [] \<longrightarrow> 0 < length ?D" by simp
    ultimately show ?thesis using w'(1,2) by blast
  next
    case False
    from reload_general [OF root walk, of ext] False show ?thesis by blast
  qed
  have decodable: "\<forall>v. reload ext root w = Inr (True, v) \<longrightarrow> store_decodable ext v"
    using reload_keeps by blast
  have ordered: "sorted (map fst ?D)"
    unfolding decodable_files_def
    by (rule sorted_filter) (rule sorted_collect_result_set)
  have members: "(t, p) \<in> set ?D \<longleftrightarrow>
      fs_exists (disk w) root \<and> is_directory (disk w) root \<and>
      valid (fst (restoreNetworkPathFromLocal ext p)) \<and>
      (\<exists>e. (p, e) \<in> set (recursive_directory_iterator (disk w) root) \<and>
           ftype e = regular_file \<and> mtime e = t)"
    by (auto simp: decodable_files_def set_collect_result_set)
  from empty populated decodable ordered members show ?thesis by blast
qed

text \<open>
  The theorem at the sample cache. The root \<^verbatim>\<open>/r/\<close>, written with a trailing separator,
  holds two decodable files of 30 and 20 bytes and one file that does not decode. With
  the capacity of 100 both are admitted, the older first. With a capacity of 40 the
  store holds an end piece of the two. The directory \<^verbatim>\<open>/empty\<close> holds nothing: \<open>reload\<close>
  returns true and the store is empty.
\<close>

theorem reload_admits_youngest_decodable_files_witness:
  "(\<exists>w'. reload sample_ext ''/r/'' sample_world = Inr (True, w') \<and>
      disk w' = sample_disk \<and> store_decodable sample_ext w' \<and>
      store_view w' = [Some (''/r/hdfs/nn_8020/a'', FILE_IS_IDLE),
                       Some (''/r/hdfs/nn_8020/b'', FILE_IS_IDLE)]) \<and>
   (\<exists>w' n. reload sample_ext ''/r/'' (sample_world\<lparr>m_capacityLimit := 40\<rparr>) = Inr (True, w') \<and>
      n < 2 \<and>
      store_view w' = map (\<lambda>(t, p). Some (p, FILE_IS_IDLE))
        (drop n [(10 :: time_t, ''/r/hdfs/nn_8020/a''), (20, ''/r/hdfs/nn_8020/b'')])) \<and>
   (\<exists>w'. reload sample_ext ''/empty'' sample_world = Inr (True, w') \<and> store_view w' = [])"
proof -
  have d: "disk sample_world = sample_disk"
    "disk (sample_world\<lparr>m_capacityLimit := 40\<rparr>) = sample_disk"
    by (simp_all add: sample_world_def)
  have fits: "total_weight sample_disk [(10, ''/r/hdfs/nn_8020/a''), (20, ''/r/hdfs/nn_8020/b'')]
      \<le> unat (m_capacityLimit sample_world)"
    by (simp add: total_weight_def sample_defs file_defs)
  note at_r = reload_admits_youngest_decodable_files
    [where ext = sample_ext and w = sample_world and root = "''/r/''" and t = 10
       and p = "''/r/hdfs/nn_8020/a''"]
  from at_r sample_walk_resolves(1) fits
  obtain w' where w': "reload sample_ext ''/r/'' sample_world = Inr (True, w')"
      "disk w' = sample_disk"
      "store_view w' = [Some (''/r/hdfs/nn_8020/a'', FILE_IS_IDLE),
                        Some (''/r/hdfs/nn_8020/b'', FILE_IS_IDLE)]"
    by (auto simp: d sample_decodable_files)
  from at_r w'(1) have "store_decodable sample_ext w'" by blast
  with w' have 1: "\<exists>w'. reload sample_ext ''/r/'' sample_world = Inr (True, w') \<and>
      disk w' = sample_disk \<and> store_decodable sample_ext w' \<and>
      store_view w' = [Some (''/r/hdfs/nn_8020/a'', FILE_IS_IDLE),
                       Some (''/r/hdfs/nn_8020/b'', FILE_IS_IDLE)]"
    by blast
  let ?w40 = "sample_world\<lparr>m_capacityLimit := 40\<rparr>"
  let ?D = "decodable_files sample_ext (disk ?w40) ''/r/''"
  have D: "?D = [(10, ''/r/hdfs/nn_8020/a''), (20, ''/r/hdfs/nn_8020/b'')]"
    by (simp add: d sample_decodable_files)
  have ne: "''/r/'' \<noteq> []" by simp
  have walk40: "walk_resolves (disk ?w40) ''/r/''"
    using sample_walk_resolves(1) by (simp add: d)
  from reload_admits_youngest_decodable_files
    [where ext = sample_ext and w = ?w40 and root = "''/r/''" and t = 10
       and p = "''/r/hdfs/nn_8020/a''"] ne walk40
  obtain w2 n where w2: "reload sample_ext ''/r/'' ?w40 = Inr (True, w2)"
    "store_view w2 = map (\<lambda>(t, p). Some (p, FILE_IS_IDLE)) (drop n ?D)"
    "?D \<noteq> [] \<longrightarrow> n < length ?D"
    by blast
  from w2(3) have "n < 2" unfolding D by simp
  with w2(1,2) have 2: "\<exists>w' n. reload sample_ext ''/r/'' ?w40 = Inr (True, w') \<and> n < 2 \<and>
      store_view w' = map (\<lambda>(t, p). Some (p, FILE_IS_IDLE))
        (drop n [(10 :: time_t, ''/r/hdfs/nn_8020/a''), (20, ''/r/hdfs/nn_8020/b'')])"
    unfolding D by blast
  from reload_admits_youngest_decodable_files
    [where ext = sample_ext and w = sample_world and root = "''/empty''" and t = 10
       and p = "''/r/hdfs/nn_8020/a''"]
    sample_walk_resolves(3)
  have 3: "\<exists>w'. reload sample_ext ''/empty'' sample_world = Inr (True, w') \<and>
      store_view w' = []"
    by (auto simp: d sample_decodable_files)
  from 1 2 3 show ?thesis by blast
qed

text \<open>
  Without the proviso the statement fails. With a capacity of 40 the two decodable files
  of the root \<^verbatim>\<open>/r\<close>, 30 and 20 bytes, do not fit together: the admission of the second
  evicts the first, admitted a moment before and idle. \<open>reload\<close> returns true, and the older
  file has no entry in the store; it is unlinked when the eviction deletes what it evicts,
  and is still on the disk, unmanaged, when it does not.
\<close>

theorem reload_over_capacity_drops_decodable_file:
  "(10, ''/r/hdfs/nn_8020/a'') \<in> set (decodable_files sample_ext sample_disk ''/r'') \<and>
   (case reload sample_ext ''/r'' (sample_world\<lparr>m_capacityLimit := 40\<rparr>) of
      Inl x \<Rightarrow> False
    | Inr (reloaded, w') \<Rightarrow>
        reloaded \<and>
        store_view w' = [Some (''/r/hdfs/nn_8020/b'', FILE_IS_IDLE)] \<and>
        lru_find w' ''/r/hdfs/nn_8020/a'' = None \<and>
        file_size (disk w') ''/r/hdfs/nn_8020/a'' = None) \<and>
   (case reload (sample_ext\<lparr>lru_evicts_physically := False\<rparr>) ''/r''
           (sample_world\<lparr>m_capacityLimit := 40\<rparr>) of
      Inl x \<Rightarrow> False
    | Inr (reloaded, w') \<Rightarrow>
        reloaded \<and>
        store_view w' = [Some (''/r/hdfs/nn_8020/b'', FILE_IS_IDLE)] \<and>
        lru_find w' ''/r/hdfs/nn_8020/a'' = None \<and>
        file_size (disk w') ''/r/hdfs/nn_8020/a'' = Some 30)"
proof -
  have 1: "(10, ''/r/hdfs/nn_8020/a'') \<in> set (decodable_files sample_ext sample_disk ''/r'')"
    by (simp add: sample_decodable_files)
  have 2: "case reload sample_ext ''/r'' (sample_world\<lparr>m_capacityLimit := 40\<rparr>) of
      Inl x \<Rightarrow> False
    | Inr (reloaded, w') \<Rightarrow>
        reloaded \<and>
        store_view w' = [Some (''/r/hdfs/nn_8020/b'', FILE_IS_IDLE)] \<and>
        lru_find w' ''/r/hdfs/nn_8020/a'' = None \<and>
        file_size (disk w') ''/r/hdfs/nn_8020/a'' = None"
    by (simp add: sample_defs cache_defs file_defs disk_defs store_view_def Let_def)
  have 3: "case reload (sample_ext\<lparr>lru_evicts_physically := False\<rparr>) ''/r''
           (sample_world\<lparr>m_capacityLimit := 40\<rparr>) of
      Inl x \<Rightarrow> False
    | Inr (reloaded, w') \<Rightarrow>
        reloaded \<and>
        store_view w' = [Some (''/r/hdfs/nn_8020/b'', FILE_IS_IDLE)] \<and>
        lru_find w' ''/r/hdfs/nn_8020/a'' = None \<and>
        file_size (disk w') ''/r/hdfs/nn_8020/a'' = Some 30"
    by (simp add: sample_defs cache_defs file_defs disk_defs store_view_def Let_def)
  from 1 2 3 show ?thesis by blast
qed

subsection \<open>Adding a path twice\<close>

lemma add_duplicate_dangles:
  assumes present: "lru_find w path = Some e"
    and res: "add ext path w = Inr (s, file, w')"
  shows "heap w' file = None \<and> lru_entries w' = lru_entries w"
proof -
  let ?n = "next_addr w"
  let ?f0 = "File_ctor ext (garbage w ?n) path"
  let ?wa = "w\<lparr>heap := (heap w)(?n \<mapsto> ?f0), next_addr := Suc ?n\<rparr>"
  from res obtain sz where sz: "file_size (disk ?wa) path = Some sz"
    by (cases "file_size (disk ?wa) path") (simp_all add: add_def new_File_def Let_def)
  let ?f2 = "snd (estimated_size_set sz ?f0)"
  let ?w2 = "store_File ?n ?f2 ?wa"
  have path2: "m_fqp ?f2 = path"
    by (simp add: m_fqp_estimated_size_set m_fqp_File_ctor)
  let ?P = "\<lambda>v e. case heap v e of Some g \<Rightarrow> m_fqp g = path | None \<Rightarrow> False"
  from present have "\<exists>x \<in> set (lru_entries w). ?P w x"
    by (auto simp: lru_find_def find_Some_iff)
  then obtain x where x: "x \<in> set (lru_entries w)" "?P w x" by blast
  have "?P ?w2 x"
  proof (cases "x = ?n")
    case True
    then show ?thesis using path2 by (simp add: store_File_def)
  next
    case False
    with x(2) show ?thesis by (simp add: store_File_def)
  qed
  moreover have "x \<in> set (lru_entries ?w2)"
    using x(1) by (simp add: store_File_def)
  ultimately have "find (?P ?w2) (lru_entries ?w2) \<noteq> None"
    unfolding find_None_iff by blast
  then obtain e2 where e2: "lru_find ?w2 path = Some e2"
    unfolding lru_find_def by blast
  have h2: "heap ?w2 ?n = Some ?f2"
    by (simp add: store_File_def)
  from e2 h2 path2
  have la: "LRUCache_add ext ?n ?w2
      = Inr (False, True, (if lru_rebinds_item ext then e2 else ?n), ?w2)"
    by (simp add: LRUCache_add_def)
  from res sz la have "file = (if lru_rebinds_item ext then e2 else ?n)"
    and "w' = delete_File file ?w2"
    by (auto simp: add_def new_File_def Let_def)
  then show ?thesis
    by (simp add: delete_File_def store_File_def)
qed

text \<open>
  C6. Adding a path that the store already holds creates no second entry, and the
  candidate is built and one object is deleted. But the caller does not get the
  existing file: the pointer left in \<open>file\<close> is the one that was deleted. When the
  generic cache leaves its argument alone that is the candidate (address 1 here), and
  when it rebinds its argument to the stored entry, the stored object itself (address
  0) is destroyed and the candidate is never released.
\<close>

theorem add_existing_path_returns_deleted_object:
  "find_file (world_with sample_file True) ''/r/hdfs/nn_8020/a'' = Some 0 \<and>
   (case add sample_ext ''/r/hdfs/nn_8020/a'' (world_with sample_file True) of
      Inl x \<Rightarrow> False
    | Inr (success, file, w') \<Rightarrow>
        file = 1 \<and> heap w' file = None \<and> lru_entries w' = [0] \<and>
        map_option m_fqp (heap w' 0) = Some ''/r/hdfs/nn_8020/a'') \<and>
   (case add (sample_ext\<lparr>lru_rebinds_item := True\<rparr>) ''/r/hdfs/nn_8020/a''
           (world_with sample_file True) of
      Inl x \<Rightarrow> False
    | Inr (success, file, w') \<Rightarrow>
        file = 0 \<and> heap w' file = None \<and> lru_entries w' = [0] \<and>
        map_option m_fqp (heap w' 1) = Some ''/r/hdfs/nn_8020/a'')"
  by (simp add: sample_defs cache_defs file_defs Let_def)

end
